theory Spec2Isabelle
  imports Main
begin

section \<open>JavaScript values used by the maze game\<close>

text \<open>
  The game is written in JavaScript (\<^verbatim>\<open>maze.js\<close>, \<^verbatim>\<open>view.js\<close>, \<^verbatim>\<open>game.js\<close>).
  Coordinates are integers. A JavaScript array is an object whose integer properties may
  or may not be defined: reading a missing index gives \<^verbatim>\<open>undefined\<close>, reading a property
  of \<^verbatim>\<open>undefined\<close> throws a TypeError, and a write creates the property. The model keeps
  exactly that: an array is a partial map from integer indices to values, \<open>None\<close> is
  \<^verbatim>\<open>undefined\<close>. The code never reads the \<^verbatim>\<open>length\<close> of a grid array.
\<close>

datatype js_error = TypeError | RangeError

type_synonym 'a js_array = "int \<rightharpoonup> 'a"

type_synonym cell = "int \<times> int"

text \<open>
  A call either returns a value, throws, or (a \<^verbatim>\<open>while (true)\<close> loop) does not return:
  \<open>Some (Inr v)\<close>, \<open>Some (Inl e)\<close> and \<open>None\<close>.
\<close>

type_synonym 'a result = "(js_error + 'a) option"

abbreviation Returns :: "'a \<Rightarrow> 'a result" where
  "Returns v \<equiv> Some (Inr v)"

abbreviation Throws :: "js_error \<Rightarrow> 'a result" where
  "Throws e \<equiv> Some (Inl e)"

definition bindE :: "js_error + 'a \<Rightarrow> ('a \<Rightarrow> js_error + 'b) \<Rightarrow> js_error + 'b" where
  "bindE r f = (case r of Inl e \<Rightarrow> Inl e | Inr v \<Rightarrow> f v)"

definition bindR :: "'a result \<Rightarrow> ('a \<Rightarrow> 'b result) \<Rightarrow> 'b result" where
  "bindR r f = (case r of None \<Rightarrow> None | Some (Inl e) \<Rightarrow> Some (Inl e) | Some (Inr v) \<Rightarrow> f v)"

text \<open>\<^verbatim>\<open>[v0, v1, ...]\<close>: the array whose indices \<open>0 .. length - 1\<close> hold the list.\<close>

definition array_of :: "'a list \<Rightarrow> 'a js_array" where
  "array_of xs i = (if 0 \<le> i \<and> i < int (length xs) then Some (xs ! nat i) else None)"

text \<open>\<^verbatim>\<open>Array(n).fill(v)\<close>; a negative length throws a RangeError at the call site.\<close>

definition filled :: "int \<Rightarrow> 'a \<Rightarrow> 'a js_array" where
  "filled n v i = (if 0 \<le> i \<and> i < n then Some v else None)"

text \<open>\<^verbatim>\<open>a[r][c]\<close> read in a boolean context: a missing row throws, a missing entry is falsy.\<close>

definition truthy_at :: "bool js_array js_array \<Rightarrow> int \<Rightarrow> int \<Rightarrow> js_error + bool" where
  "truthy_at a r c =
     (case a r of None \<Rightarrow> Inl TypeError
      | Some row \<Rightarrow> Inr (case row c of None \<Rightarrow> False | Some b \<Rightarrow> b))"

text \<open>\<^verbatim>\<open>a[r][c] = v\<close>: a missing row throws, otherwise the entry is created or overwritten.\<close>

definition set2 :: "'a js_array js_array \<Rightarrow> int \<Rightarrow> int \<Rightarrow> 'a \<Rightarrow> js_error + 'a js_array js_array" where
  "set2 a r c v = (case a r of None \<Rightarrow> Inl TypeError | Some row \<Rightarrow> Inr (a(r \<mapsto> row(c \<mapsto> v))))"

fun setCells :: "'a js_array js_array \<Rightarrow> (int \<times> int) list \<Rightarrow> 'a \<Rightarrow> js_error + 'a js_array js_array" where
  "setCells a [] v = Inr a"
| "setCells a ((r, c) # rcs) v = bindE (set2 a r c v) (\<lambda>a'. setCells a' rcs v)"

text \<open>
  A JavaScript \<^verbatim>\<open>Set\<close> iterates in insertion order and \<^verbatim>\<open>add\<close> of a member changes
  nothing: a list without repetition, new members appended. The sets of the game are keyed
  by \<^verbatim>\<open>`${x},${y}`\<close> (\<^verbatim>\<open>getCellKey\<close>, read back by \<^verbatim>\<open>parseCellKey\<close>); on integers the key
  determines the pair and the pair the key, so the model keys them by the pair.
\<close>

definition set_add :: "'a \<Rightarrow> 'a list \<Rightarrow> 'a list" where
  "set_add k s = (if k \<in> set s then s else s @ [k])"

definition set_add_all :: "'a list \<Rightarrow> 'a list \<Rightarrow> 'a list" where
  "set_add_all ks s = fold set_add ks s"

section \<open>maze.js: the grid\<close>

record wallset =
  horizontal :: "bool js_array js_array"
  vertical :: "bool js_array js_array"

record maze =
  width :: int
  height :: int
  cells :: "bool js_array js_array"
  walls :: wallset
  start :: cell
  endc :: cell
  path :: "cell list"

text \<open>\<^verbatim>\<open>Maze.setBoundaryWalls\<close>: four loops of writes.\<close>

definition setBoundaryWalls :: "maze \<Rightarrow> js_error + maze" where
  "setBoundaryWalls m =
     bindE (setCells (horizontal (walls m)) (map (\<lambda>x. (0, x)) [0 .. width m - 1]) True) (\<lambda>h1.
     bindE (setCells h1 (map (\<lambda>x. (height m, x)) [0 .. width m - 1]) True) (\<lambda>h2.
     bindE (setCells (vertical (walls m)) (map (\<lambda>y. (y, 0)) [0 .. height m - 1]) True) (\<lambda>v1.
     bindE (setCells v1 (map (\<lambda>y. (y, width m)) [0 .. height m - 1]) True) (\<lambda>v2.
     Inr (m\<lparr>walls := \<lparr>horizontal = h2, vertical = v2\<rparr>\<rparr>)))))"

text \<open>
  \<^verbatim>\<open>Maze.init\<close>: \<^verbatim>\<open>Array(this.height)\<close> throws a RangeError on a negative height, and
  the rows \<^verbatim>\<open>Array(this.width)\<close> of \<^verbatim>\<open>walls.horizontal\<close> (there is at least one) on a
  negative width.
\<close>

definition init :: "maze \<Rightarrow> js_error + maze" where
  "init m =
     (if height m < 0 \<or> width m < 0 then Inl RangeError
      else setBoundaryWalls (m\<lparr>
             cells := filled (height m) (filled (width m) False),
             walls := \<lparr>horizontal = filled (height m + 1) (filled (width m) True),
                       vertical = filled (height m) (filled (width m + 1) True)\<rparr>\<rparr>))"

text \<open>
  \<^verbatim>\<open>Maze.canMove\<close>: the wall arrays are indexed with no test of the indices. The method
  reads \<^verbatim>\<open>this.walls\<close> and nothing else of the maze; \<open>canMoveW\<close> is its body on the walls.
\<close>

definition canMoveW :: "wallset \<Rightarrow> int \<Rightarrow> int \<Rightarrow> int \<Rightarrow> int \<Rightarrow> js_error + bool" where
  "canMoveW ws x y dx dy =
     (if dx = 1 then map_sum id Not (truthy_at (vertical ws) y (x + 1))
      else if dx = - 1 then map_sum id Not (truthy_at (vertical ws) y x)
      else if dy = 1 then map_sum id Not (truthy_at (horizontal ws) (y + 1) x)
      else if dy = - 1 then map_sum id Not (truthy_at (horizontal ws) y x)
      else Inr False)"

definition canMove :: "maze \<Rightarrow> int \<Rightarrow> int \<Rightarrow> int \<Rightarrow> int \<Rightarrow> js_error + bool" where
  "canMove m x y dx dy = canMoveW (walls m) x y dx dy"

text \<open>
  \<^verbatim>\<open>Maze.getWall\<close>: the accessor next to it, which does test the indices and returns the
  stored value (\<open>None\<close> is \<^verbatim>\<open>undefined\<close>).
\<close>

datatype wall_type = Horizontal | Vertical | OtherType

definition read2 :: "'a js_array js_array \<Rightarrow> int \<Rightarrow> int \<Rightarrow> js_error + 'a option" where
  "read2 a r c = (case a r of None \<Rightarrow> Inl TypeError | Some row \<Rightarrow> Inr (row c))"

definition getWall :: "maze \<Rightarrow> wall_type \<Rightarrow> int \<Rightarrow> int \<Rightarrow> js_error + bool option" where
  "getWall m t row col =
     (if t = Horizontal \<and> row \<ge> 0 \<and> row \<le> height m \<and> col \<ge> 0 \<and> col < width m
        then read2 (horizontal (walls m)) row col
      else if t = Vertical \<and> row \<ge> 0 \<and> row < height m \<and> col \<ge> 0 \<and> col \<le> width m
        then read2 (vertical (walls m)) row col
      else Inr (Some True))"

section \<open>view.js: the visibility system\<close>

text \<open>
  \<^verbatim>\<open>ViewSystem.hasLineOfSight\<close>: the \<^verbatim>\<open>while (true)\<close> loop over \<open>currentX\<close>, \<open>currentY\<close>
  and \<open>err\<close>. It leaves by \<^verbatim>\<open>return true\<close> at the target, by \<^verbatim>\<open>return false\<close> at a blocked
  step, or by the exception of \<^verbatim>\<open>canMove\<close>; otherwise it goes round again.
\<close>

partial_function (option) los_loop ::
  "maze \<Rightarrow> int \<Rightarrow> int \<Rightarrow> int \<Rightarrow> int \<Rightarrow> int \<Rightarrow> int \<Rightarrow> int \<Rightarrow> int \<Rightarrow> int \<Rightarrow> bool result" where
  "los_loop m x2 y2 dx dy sx sy currentX currentY err =
     (if currentX = x2 \<and> currentY = y2 then Returns True
      else
        let e2 = 2 * err;
            stepX = (e2 > - dy);
            err1 = (if stepX then err - dy else err);
            nextX = (if stepX then currentX + sx else currentX);
            stepY = (e2 < dx);
            err2 = (if stepY then err1 + dx else err1);
            nextY = (if stepY then currentY + sy else currentY);
            moveX = nextX - currentX;
            moveY = nextY - currentY
        in (case canMove m currentX currentY moveX moveY of
              Inl e \<Rightarrow> Throws e
            | Inr ok \<Rightarrow> if \<not> ok then Returns False
                       else los_loop m x2 y2 dx dy sx sy nextX nextY err2))"

declare los_loop.simps [code]

definition hasLineOfSight :: "maze \<Rightarrow> int \<Rightarrow> int \<Rightarrow> int \<Rightarrow> int \<Rightarrow> bool result" where
  "hasLineOfSight m x1 y1 x2 y2 =
     (let dx = \<bar>x2 - x1\<bar>;
          dy = \<bar>y2 - y1\<bar>;
          sx = (if x1 < x2 then 1 else - 1);
          sy = (if y1 < y2 then 1 else - 1)
      in los_loop m x2 y2 dx dy sx sy x1 y1 (dx - dy))"

text \<open>
  The mode is the string the constructor was given (\<^verbatim>\<open>options.mode || 'permanent'\<close>,
  unchecked); \<^verbatim>\<open>update\<close> compares it with \<^verbatim>\<open>'permanent'\<close> and treats every other value as
  the instant mode. The cache is a \<^verbatim>\<open>Map\<close> keyed by \<^verbatim>\<open>`${x},${y},${viewRange}`\<close>.
\<close>

record viewsys =
  mode :: string
  viewRange :: int
  visibleCells :: "cell list"
  exploredCells :: "cell list"
  permanentCells :: "cell list"
  cache :: "(int \<times> int \<times> int) \<rightharpoonup> cell list"

text \<open>\<^verbatim>\<open>new ViewSystem({mode, viewRange})\<close>; a falsy option takes the default.\<close>

definition new_ViewSystem :: "string \<Rightarrow> int \<Rightarrow> viewsys" where
  "new_ViewSystem md r =
     \<lparr>mode = (if md = [] then ''permanent'' else md),
      viewRange = (if r = 0 then 1 else r),
      visibleCells = [], exploredCells = [], permanentCells = [],
      cache = Map.empty\<rparr>"

definition setMode :: "viewsys \<Rightarrow> string \<Rightarrow> viewsys" where
  "setMode vs md =
     (if md \<noteq> ''permanent'' \<and> md \<noteq> ''instant'' then vs
      else vs\<lparr>mode := md, cache := Map.empty\<rparr>)"

definition setViewRange :: "viewsys \<Rightarrow> int \<Rightarrow> viewsys" where
  "setViewRange vs range0 =
     (let range1 = (if range0 < 1 then 1 else range0);
          range2 = (if range1 > 5 then 5 else range1)
      in vs\<lparr>viewRange := range2, cache := Map.empty\<rparr>)"

text \<open>
  The two nested \<^verbatim>\<open>for\<close> loops of \<^verbatim>\<open>calculateVisibleArea\<close> visit the cells of the square
  row by row (\<open>dy\<close> outside, \<open>dx\<close> inside).
\<close>

definition window :: "int \<Rightarrow> int \<Rightarrow> int \<Rightarrow> cell list" where
  "window playerX playerY r =
     concat (map (\<lambda>dy. map (\<lambda>dx. (playerX + dx, playerY + dy)) [- r .. r]) [- r .. r])"

fun scan_cells :: "maze \<Rightarrow> int \<Rightarrow> int \<Rightarrow> cell list \<Rightarrow> cell list \<Rightarrow> cell list result" where
  "scan_cells m playerX playerY [] visible = Returns visible"
| "scan_cells m playerX playerY ((cellX, cellY) # rest) visible =
     (if cellX \<ge> 0 \<and> cellX < width m \<and> cellY \<ge> 0 \<and> cellY < height m then
        bindR (hasLineOfSight m playerX playerY cellX cellY) (\<lambda>sees.
          scan_cells m playerX playerY rest (if sees then set_add (cellX, cellY) visible else visible))
      else scan_cells m playerX playerY rest visible)"

text \<open>
  \<^verbatim>\<open>calculateVisibleArea\<close> returns a fresh set and may add a cache entry; a hit returns
  \<^verbatim>\<open>new Set(cached array)\<close>.
\<close>

definition calculateVisibleArea :: "viewsys \<Rightarrow> int \<Rightarrow> int \<Rightarrow> maze \<Rightarrow> (cell list \<times> viewsys) result" where
  "calculateVisibleArea vs playerX playerY m =
     (case cache vs (playerX, playerY, viewRange vs) of
        Some cached \<Rightarrow> Returns (set_add_all cached [], vs)
      | None \<Rightarrow>
          bindR (scan_cells m playerX playerY (window playerX playerY (viewRange vs)) []) (\<lambda>visible.
            Returns (visible, vs\<lparr>cache := (cache vs)((playerX, playerY, viewRange vs) \<mapsto> visible)\<rparr>)))"

text \<open>
  \<^verbatim>\<open>ViewSystem.update\<close> returns \<^verbatim>\<open>this.visibleCells\<close>; the model returns it beside the new
  state. In the permanent branch \<^verbatim>\<open>this.visibleCells\<close> is the set just computed, with the
  members of \<^verbatim>\<open>permanentCells\<close> added to it.
\<close>

definition update :: "viewsys \<Rightarrow> int \<Rightarrow> int \<Rightarrow> maze \<Rightarrow> (cell list \<times> viewsys) result" where
  "update vs playerX playerY m =
     bindR (calculateVisibleArea vs playerX playerY m) (\<lambda>(newVisibleCells, vs1).
       if mode vs1 = ''permanent'' then
         let explored' = set_add_all newVisibleCells (exploredCells vs1);
             permanent' = set_add_all newVisibleCells (permanentCells vs1);
             visible' = set_add_all permanent' newVisibleCells
         in Returns (visible', vs1\<lparr>visibleCells := visible', exploredCells := explored',
                                   permanentCells := permanent'\<rparr>)
       else
         Returns (newVisibleCells, vs1\<lparr>visibleCells := newVisibleCells,
                                        exploredCells := set_add_all newVisibleCells []\<rparr>))"

definition isCellVisible :: "viewsys \<Rightarrow> int \<Rightarrow> int \<Rightarrow> bool" where
  "isCellVisible vs x y = ((x, y) \<in> set (visibleCells vs))"

definition isCellExplored :: "viewsys \<Rightarrow> int \<Rightarrow> int \<Rightarrow> bool" where
  "isCellExplored vs x y = ((x, y) \<in> set (exploredCells vs))"

definition getVisibleCells :: "viewsys \<Rightarrow> cell list" where
  "getVisibleCells vs = visibleCells vs"

section \<open>game.js: the game loop\<close>

record player =
  playerX :: int
  playerY :: int
  prevX :: int
  prevY :: int

record config =
  mazeSize :: int
  viewMode :: string
  cellSize :: int
  showSolution :: bool

text \<open>\<^verbatim>\<open>startTime\<close> and \<^verbatim>\<open>endTime\<close> are \<^verbatim>\<open>null\<close> or a clock reading in milliseconds.\<close>

record game_state =
  isRunning :: bool
  isPaused :: bool
  isGameOver :: bool
  isVictory :: bool
  moves :: int
  startTime :: "int option"
  endTime :: "int option"

record game =
  config :: config
  state :: game_state
  maze :: maze
  player :: player
  viewSystem :: viewsys
  gameExploredCells :: "cell list"
  visitedCells :: "cell list"

text \<open>
  The listeners are callbacks of the user interface; \<^verbatim>\<open>triggerEvent\<close> calls them one after
  the other and catches what they throw. The model records the events a call triggers, in
  the order of the \<^verbatim>\<open>triggerEvent\<close> calls. The victory event carries the moves, the elapsed
  seconds, the number of explored cells and the number of cells (its \<^verbatim>\<open>exploreRate\<close> is a
  rounded floating-point quotient and is left out).
\<close>

datatype event =
    OnMove cell cell int
  | OnCellExplored int int nat int
  | OnVictory int int nat int
  | OnGameStart
  | OnGameOver int int

text \<open>\<^verbatim>\<open>null\<close> counts as \<open>0\<close> in the subtraction of the two clock readings.\<close>

definition clock_value :: "int option \<Rightarrow> int" where
  "clock_value t = (case t of None \<Rightarrow> 0 | Some v \<Rightarrow> v)"

text \<open>The body of the \<^verbatim>\<open>for\<close> loop of \<^verbatim>\<open>Game.updateVisibility\<close>, for one visible cell.\<close>

definition explore_cell :: "int \<Rightarrow> cell \<Rightarrow> cell list \<times> event list \<Rightarrow> cell list \<times> event list" where
  "explore_cell n c acc =
     (case acc of (explored, evs) \<Rightarrow>
        if c \<notin> set explored then
          (explored @ [c],
           evs @ [OnCellExplored (fst c) (snd c) (length (explored @ [c])) (n * n)])
        else (explored, evs))"

definition updateVisibility :: "game \<Rightarrow> (game \<times> event list) result" where
  "updateVisibility g =
     bindR (update (viewSystem g) (playerX (player g)) (playerY (player g)) (maze g)) (\<lambda>(returned, vs').
       let visibleList = getVisibleCells vs';
           (explored', evs) = fold (explore_cell (mazeSize (config g))) visibleList
                                (gameExploredCells g, [])
       in Returns (g\<lparr>viewSystem := vs', gameExploredCells := explored'\<rparr>, evs))"

text \<open>\<^verbatim>\<open>Game.victory\<close>, with the reading of \<^verbatim>\<open>Date.now()\<close> as a parameter.\<close>

definition victory :: "game \<Rightarrow> int \<Rightarrow> game \<times> event list" where
  "victory g now =
     (let st = (state g)\<lparr>isGameOver := True, isVictory := True, endTime := Some now,
                         isRunning := False\<rparr>;
          gameTime = (clock_value (endTime st) - clock_value (startTime st)) div 1000;
          totalCells = mazeSize (config g) * mazeSize (config g)
      in (g\<lparr>state := st\<rparr>,
          [OnVictory (moves st) gameTime (length (gameExploredCells g)) totalCells]))"

text \<open>
  \<^verbatim>\<open>Game.movePlayer(dx, dy)\<close> returns the boolean, the new game and the events triggered.
\<close>

definition movePlayer :: "game \<Rightarrow> int \<Rightarrow> int \<Rightarrow> int \<Rightarrow> (bool \<times> game \<times> event list) result" where
  "movePlayer g now dx dy =
     (if \<not> isRunning (state g) \<or> isPaused (state g) \<or> isGameOver (state g) then
        Returns (False, g, [])
      else if (dx = 0 \<and> dy = 0) \<or> \<bar>dx\<bar> > 1 \<or> \<bar>dy\<bar> > 1 then
        Returns (False, g, [])
      else
        let newX = playerX (player g) + dx;
            newY = playerY (player g) + dy
        in
          if newX < 0 \<or> newX \<ge> mazeSize (config g) \<or> newY < 0 \<or> newY \<ge> mazeSize (config g) then
            Returns (False, g, [])
          else
            (case canMove (maze g) (playerX (player g)) (playerY (player g)) dx dy of
               Inl e \<Rightarrow> Throws e
             | Inr ok \<Rightarrow>
                 if \<not> ok then Returns (False, g, [])
                 else
                   let g1 = g\<lparr>player := \<lparr>playerX = newX, playerY = newY,
                                           prevX = playerX (player g), prevY = playerY (player g)\<rparr>,
                               state := (state g)\<lparr>moves := moves (state g) + 1\<rparr>,
                               visitedCells := set_add (newX, newY) (visitedCells g)\<rparr>
                   in bindR (updateVisibility g1) (\<lambda>(g2, evs1).
                        let evs2 = evs1 @ [OnMove (prevX (player g2), prevY (player g2)) (newX, newY)
                                             (moves (state g2))]
                        in if newX = fst (endc (maze g2)) \<and> newY = snd (endc (maze g2)) then
                             (case victory g2 now of (g3, evs3) \<Rightarrow> Returns (True, g3, evs2 @ evs3))
                           else Returns (True, g2, evs2))))"

definition setViewMode :: "game \<Rightarrow> string \<Rightarrow> (game \<times> event list) result" where
  "setViewMode g md =
     (if md \<noteq> ''permanent'' \<and> md \<noteq> ''instant'' then Returns (g, [])
      else updateVisibility (g\<lparr>viewSystem := setMode (viewSystem g) md,
                               config := (config g)\<lparr>viewMode := md\<rparr>\<rparr>))"

definition Game_isCellExplored :: "game \<Rightarrow> int \<Rightarrow> int \<Rightarrow> bool" where
  "Game_isCellExplored g x y = ((x, y) \<in> set (gameExploredCells g))"

definition Game_isCellVisible :: "game \<Rightarrow> int \<Rightarrow> int \<Rightarrow> bool" where
  "Game_isCellVisible g x y = isCellVisible (viewSystem g) x y"


section \<open>maze.js: generation and the solution path\<close>

text \<open>
  The generator draws its random numbers as \<^verbatim>\<open>Math.floor(Math.random() * n)\<close>. The source
  of randomness is a state and a function that draws an index for \<open>n\<close> and advances
  the state.
\<close>

type_synonym 's random_source = "'s \<Rightarrow> int \<Rightarrow> int \<times> 's"

datatype direction = DirUp | DirRight | DirDown | DirLeft

definition directions :: "(int \<times> int \<times> direction) list" where
  "directions = [(0, - 1, DirUp), (1, 0, DirRight), (0, 1, DirDown), (- 1, 0, DirLeft)]"

text \<open>\<^verbatim>\<open>Maze.getUnvisitedNeighbors\<close>, on \<^verbatim>\<open>this.width\<close>, \<^verbatim>\<open>this.height\<close> and \<^verbatim>\<open>this.cells\<close>.\<close>

fun unvisited_among ::
  "int \<Rightarrow> int \<Rightarrow> bool js_array js_array \<Rightarrow> int \<Rightarrow> int \<Rightarrow> (int \<times> int \<times> direction) list
   \<Rightarrow> (int \<times> int \<times> direction) list \<Rightarrow> js_error + (int \<times> int \<times> direction) list" where
  "unvisited_among w h cs x y [] neighbors = Inr neighbors"
| "unvisited_among w h cs x y ((dx, dy, d) # dirs) neighbors =
     (let nx = x + dx; ny = y + dy in
      if nx \<ge> 0 \<and> nx < w \<and> ny \<ge> 0 \<and> ny < h then
        bindE (truthy_at cs ny nx) (\<lambda>seen.
          unvisited_among w h cs x y dirs (if \<not> seen then neighbors @ [(nx, ny, d)] else neighbors))
      else unvisited_among w h cs x y dirs neighbors)"

definition getUnvisitedNeighbors ::
  "int \<Rightarrow> int \<Rightarrow> bool js_array js_array \<Rightarrow> int \<Rightarrow> int \<Rightarrow> js_error + (int \<times> int \<times> direction) list" where
  "getUnvisitedNeighbors w h cs x y = unvisited_among w h cs x y directions []"

definition removeWall :: "wallset \<Rightarrow> int \<Rightarrow> int \<Rightarrow> direction \<Rightarrow> js_error + wallset" where
  "removeWall ws x y d =
     (case d of
        DirUp \<Rightarrow> bindE (set2 (horizontal ws) y x False) (\<lambda>a. Inr (ws\<lparr>horizontal := a\<rparr>))
      | DirRight \<Rightarrow> bindE (set2 (vertical ws) y (x + 1) False) (\<lambda>a. Inr (ws\<lparr>vertical := a\<rparr>))
      | DirDown \<Rightarrow> bindE (set2 (horizontal ws) (y + 1) x False) (\<lambda>a. Inr (ws\<lparr>horizontal := a\<rparr>))
      | DirLeft \<Rightarrow> bindE (set2 (vertical ws) y x False) (\<lambda>a. Inr (ws\<lparr>vertical := a\<rparr>)))"

text \<open>
  The \<^verbatim>\<open>do ... while\<close> loop of \<^verbatim>\<open>generate\<close> that draws the end until it differs from the
  start.
\<close>

partial_function (option) pick_end ::
  "'s random_source \<Rightarrow> int \<Rightarrow> int \<Rightarrow> int \<Rightarrow> int \<Rightarrow> 's \<Rightarrow> (cell \<times> 's) result" where
  "pick_end rnd w h startX startY s =
     (case rnd s w of (endX, s1) \<Rightarrow>
      case rnd s1 h of (endY, s2) \<Rightarrow>
        if endX = startX \<and> endY = startY then pick_end rnd w h startX startY s2
        else Returns ((endX, endY), s2))"

declare pick_end.simps [code]

text \<open>
  The carving loop of \<^verbatim>\<open>generate\<close>; the stack has its top at the head. Indexing
  \<^verbatim>\<open>neighbors\<close> outside its length gives \<^verbatim>\<open>undefined\<close>, whose \<^verbatim>\<open>direction\<close> is a TypeError.
\<close>

partial_function (option) carve ::
  "'s random_source \<Rightarrow> int \<Rightarrow> int \<Rightarrow> bool js_array js_array \<Rightarrow> wallset \<Rightarrow> cell list \<Rightarrow> 's
   \<Rightarrow> (bool js_array js_array \<times> wallset \<times> 's) result" where
  "carve rnd w h cs ws stack s =
     (case stack of
        [] \<Rightarrow> Returns (cs, ws, s)
      | (x, y) # below \<Rightarrow>
          (case getUnvisitedNeighbors w h cs x y of
             Inl e \<Rightarrow> Throws e
           | Inr neighbors \<Rightarrow>
               if length neighbors > 0 then
                 (case rnd s (int (length neighbors)) of (randomIndex, s1) \<Rightarrow>
                    if randomIndex < 0 \<or> randomIndex \<ge> int (length neighbors) then Throws TypeError
                    else
                      (case neighbors ! nat randomIndex of (nx, ny, d) \<Rightarrow>
                         (case removeWall ws x y d of
                            Inl e \<Rightarrow> Throws e
                          | Inr ws1 \<Rightarrow>
                              (case set2 cs ny nx True of
                                 Inl e \<Rightarrow> Throws e
                               | Inr cs1 \<Rightarrow> carve rnd w h cs1 ws1 ((nx, ny) # stack) s1))))
               else carve rnd w h cs ws below s))"

declare carve.simps [code]

text \<open>
  The step of both breadth-first searches for one direction: the neighbour is taken when
  it is in the grid, \<^verbatim>\<open>canMove\<close> allows the step and it is not visited yet.
\<close>

definition bfs_takes ::
  "int \<Rightarrow> int \<Rightarrow> wallset \<Rightarrow> bool js_array js_array \<Rightarrow> cell \<Rightarrow> int \<times> int \<Rightarrow> js_error + bool" where
  "bfs_takes w h ws visited current dir =
     (let nx = fst current + fst dir; ny = snd current + snd dir in
      if nx \<ge> 0 \<and> nx < w \<and> ny \<ge> 0 \<and> ny < h then
        bindE (canMoveW ws (fst current) (snd current) (fst dir) (snd dir)) (\<lambda>ok.
          if ok then bindE (truthy_at visited ny nx) (\<lambda>seen. Inr (\<not> seen)) else Inr False)
      else Inr False)"

definition bfs_directions :: "(int \<times> int) list" where
  "bfs_directions = [(0, - 1), (1, 0), (0, 1), (- 1, 0)]"

fun ensure_neighbors ::
  "int \<Rightarrow> int \<Rightarrow> wallset \<Rightarrow> cell \<Rightarrow> (int \<times> int) list \<Rightarrow> bool js_array js_array \<times> cell list
   \<Rightarrow> js_error + bool js_array js_array \<times> cell list" where
  "ensure_neighbors w h ws current [] (visited, queue) = Inr (visited, queue)"
| "ensure_neighbors w h ws current (dir # dirs) (visited, queue) =
     bindE (bfs_takes w h ws visited current dir) (\<lambda>take.
       if take then
         bindE (set2 visited (snd current + snd dir) (fst current + fst dir) True) (\<lambda>visited1.
           ensure_neighbors w h ws current dirs
             (visited1, queue @ [(fst current + fst dir, snd current + snd dir)]))
       else ensure_neighbors w h ws current dirs (visited, queue))"

text \<open>The search loop of \<^verbatim>\<open>ensurePathExists\<close>: true when the end was taken from the queue.\<close>

partial_function (option) ensure_loop ::
  "int \<Rightarrow> int \<Rightarrow> wallset \<Rightarrow> cell \<Rightarrow> bool js_array js_array \<Rightarrow> cell list \<Rightarrow> bool result" where
  "ensure_loop w h ws e visited queue =
     (case queue of
        [] \<Rightarrow> Returns False
      | current # rest \<Rightarrow>
          if fst current = fst e \<and> snd current = snd e then Returns True
          else
            (case ensure_neighbors w h ws current bfs_directions (visited, rest) of
               Inl err \<Rightarrow> Throws err
             | Inr (visited1, queue1) \<Rightarrow> ensure_loop w h ws e visited1 queue1))"

declare ensure_loop.simps [code]

text \<open>\<^verbatim>\<open>Maze.createPathToEnd\<close>, the loop over \<^verbatim>\<open>x\<close> and \<^verbatim>\<open>y\<close> (here \<open>curX\<close>, \<open>curY\<close>).\<close>

partial_function (option) create_path ::
  "cell \<Rightarrow> bool js_array js_array \<Rightarrow> wallset \<Rightarrow> int \<Rightarrow> int \<Rightarrow> (bool js_array js_array \<times> wallset) result" where
  "create_path e cs ws curX curY =
     (if curX \<noteq> fst e \<or> curY \<noteq> snd e then
        (case (if curX < fst e then
                 bindE (set2 (vertical ws) curY (curX + 1) False)
                   (\<lambda>a. Inr (ws\<lparr>vertical := a\<rparr>, curX + 1, curY))
               else if curX > fst e then
                 bindE (set2 (vertical ws) curY curX False)
                   (\<lambda>a. Inr (ws\<lparr>vertical := a\<rparr>, curX - 1, curY))
               else if curY < snd e then
                 bindE (set2 (horizontal ws) (curY + 1) curX False)
                   (\<lambda>a. Inr (ws\<lparr>horizontal := a\<rparr>, curX, curY + 1))
               else if curY > snd e then
                 bindE (set2 (horizontal ws) curY curX False)
                   (\<lambda>a. Inr (ws\<lparr>horizontal := a\<rparr>, curX, curY - 1))
               else Inr (ws, curX, curY)) of
           Inl err \<Rightarrow> Throws err
         | Inr (ws1, nextX, nextY) \<Rightarrow>
             (case set2 cs nextY nextX True of
                Inl err \<Rightarrow> Throws err
              | Inr cs1 \<Rightarrow> create_path e cs1 ws1 nextX nextY))
      else Returns (cs, ws))"

declare create_path.simps [code]

definition createPathToEnd :: "maze \<Rightarrow> maze result" where
  "createPathToEnd m =
     bindR (create_path (endc m) (cells m) (walls m) (fst (start m)) (snd (start m))) (\<lambda>(cs, ws).
       Returns (m\<lparr>cells := cs, walls := ws\<rparr>))"

text \<open>
  \<^verbatim>\<open>Maze.ensurePathExists\<close>. The local \<^verbatim>\<open>visited\<close> array has \<^verbatim>\<open>height\<close> rows of \<^verbatim>\<open>width\<close>
  entries; marking the start is a write with no test of the indices.
\<close>

definition ensurePathExists :: "maze \<Rightarrow> maze result" where
  "ensurePathExists m =
     (if height m < 0 \<or> (height m > 0 \<and> width m < 0) then Throws RangeError
      else
        case set2 (filled (height m) (filled (width m) False)) (snd (start m)) (fst (start m)) True of
          Inl err \<Rightarrow> Throws err
        | Inr visited \<Rightarrow>
            bindR (ensure_loop (width m) (height m) (walls m) (endc m) visited [start m]) (\<lambda>found.
              if found then Returns m else createPathToEnd m))"

text \<open>
  The search of \<^verbatim>\<open>calculatePath\<close> also records the parent of each cell it takes. An entry
  of \<^verbatim>\<open>parent\<close> is \<^verbatim>\<open>null\<close> (\<open>Some None\<close>), a cell, or missing (\<^verbatim>\<open>undefined\<close>).
\<close>

fun path_neighbors ::
  "int \<Rightarrow> int \<Rightarrow> wallset \<Rightarrow> cell \<Rightarrow> (int \<times> int) list
   \<Rightarrow> bool js_array js_array \<times> cell option js_array js_array \<times> cell list
   \<Rightarrow> js_error + bool js_array js_array \<times> cell option js_array js_array \<times> cell list" where
  "path_neighbors w h ws current [] (visited, parent, queue) = Inr (visited, parent, queue)"
| "path_neighbors w h ws current (dir # dirs) (visited, parent, queue) =
     bindE (bfs_takes w h ws visited current dir) (\<lambda>take.
       if take then
         bindE (set2 visited (snd current + snd dir) (fst current + fst dir) True) (\<lambda>visited1.
         bindE (set2 parent (snd current + snd dir) (fst current + fst dir) (Some current)) (\<lambda>parent1.
           path_neighbors w h ws current dirs
             (visited1, parent1, queue @ [(fst current + fst dir, snd current + snd dir)])))
       else path_neighbors w h ws current dirs (visited, parent, queue))"

text \<open>
  \<^verbatim>\<open>Maze.buildPath\<close>: the loop runs while \<^verbatim>\<open>current !== null\<close>. An \<^verbatim>\<open>undefined\<close> entry is
  not \<^verbatim>\<open>null\<close>: the loop goes on with it and reading its \<^verbatim>\<open>y\<close> throws.
\<close>

partial_function (option) buildPath ::
  "cell option js_array js_array \<Rightarrow> cell option \<Rightarrow> cell list \<Rightarrow> cell list result" where
  "buildPath parent current built =
     (case current of
        None \<Rightarrow> Returns built
      | Some c \<Rightarrow>
          (case read2 parent (snd c) (fst c) of
             Inl err \<Rightarrow> Throws err
           | Inr None \<Rightarrow> Throws TypeError
           | Inr (Some next) \<Rightarrow> buildPath parent next (c # built)))"

declare buildPath.simps [code]

partial_function (option) path_loop ::
  "int \<Rightarrow> int \<Rightarrow> wallset \<Rightarrow> cell \<Rightarrow> bool js_array js_array \<Rightarrow> cell option js_array js_array
   \<Rightarrow> cell list \<Rightarrow> cell list result" where
  "path_loop w h ws e visited parent queue =
     (case queue of
        [] \<Rightarrow> Returns []
      | current # rest \<Rightarrow>
          if fst current = fst e \<and> snd current = snd e then buildPath parent (Some current) []
          else
            (case path_neighbors w h ws current bfs_directions (visited, parent, rest) of
               Inl err \<Rightarrow> Throws err
             | Inr (visited1, parent1, queue1) \<Rightarrow> path_loop w h ws e visited1 parent1 queue1))"

declare path_loop.simps [code]

definition calculatePath :: "maze \<Rightarrow> maze result" where
  "calculatePath m =
     (if height m < 0 \<or> (height m > 0 \<and> width m < 0) then Throws RangeError
      else
        case set2 (filled (height m) (filled (width m) False)) (snd (start m)) (fst (start m)) True of
          Inl err \<Rightarrow> Throws err
        | Inr visited \<Rightarrow>
            bindR (path_loop (width m) (height m) (walls m) (endc m) visited
                     (filled (height m) (filled (width m) None)) [start m]) (\<lambda>p.
              Returns (m\<lparr>path := p\<rparr>)))"

text \<open>\<^verbatim>\<open>Maze.generate\<close>, with the source of randomness and its state.\<close>

definition generate :: "'s random_source \<Rightarrow> 's \<Rightarrow> maze \<Rightarrow> (maze \<times> 's) result" where
  "generate rnd s m =
     (case init m of
        Inl err \<Rightarrow> Throws err
      | Inr m1 \<Rightarrow>
          (case rnd s (width m1) of (startX, s1) \<Rightarrow>
           case rnd s1 (height m1) of (startY, s2) \<Rightarrow>
             bindR (pick_end rnd (width m1) (height m1) startX startY s2) (\<lambda>(e, s3).
               case set2 (cells m1) startY startX True of
                 Inl err \<Rightarrow> Throws err
               | Inr cs1 \<Rightarrow>
                   bindR (carve rnd (width m1) (height m1) cs1 (walls m1) [(startX, startY)] s3)
                     (\<lambda>(cs2, ws2, s4).
                        bindR (ensurePathExists
                                 (m1\<lparr>start := (startX, startY), endc := e, cells := cs2, walls := ws2\<rparr>))
                          (\<lambda>m2. bindR (calculatePath m2) (\<lambda>m3. Returns (m3, s4)))))))"

text \<open>
  \<^verbatim>\<open>Maze.generateFixedLevel\<close> replaces \<^verbatim>\<open>Math.random\<close> by a linear congruential generator
  on \<^verbatim>\<open>seedValue\<close>, calls \<^verbatim>\<open>generate\<close> and puts the saved \<^verbatim>\<open>Math.random\<close> back. The code
  computes in double precision. For an integer level, \<^verbatim>\<open>seedValue\<close> is an integer all along:
  the product and the sum of integers are rounded to the nearest double, which is an
  integer again, and \<open>to_double v\<close> stands for this rounding of the integer \<open>v\<close>. It is the
  identity up to \<open>2\<^sup>5\<^sup>3\<close> and a parameter here. \<^verbatim>\<open>%\<close> is exact, the remainder with the sign
  of the dividend. The generator returns the floating-point quotient
  \<^verbatim>\<open>seedValue / 233280\<close>, which \<^verbatim>\<open>generate\<close> multiplies by \<open>n\<close> and rounds down in floating
  point; \<open>floor_scaled seedValue n\<close> stands for that result and is a parameter as well.
\<close>

definition js_rem :: "int \<Rightarrow> int \<Rightarrow> int" where
  "js_rem a b = sgn a * (\<bar>a\<bar> mod \<bar>b\<bar>)"

definition seeded_random :: "(int \<Rightarrow> int) \<Rightarrow> (int \<Rightarrow> int \<Rightarrow> int) \<Rightarrow> int random_source" where
  "seeded_random to_double floor_scaled seedValue n =
     (let seedValue1 = js_rem (to_double (to_double (seedValue * 9301) + 49297)) 233280
      in (floor_scaled seedValue1 n, seedValue1))"

definition generateFixedLevel ::
  "(int \<Rightarrow> int) \<Rightarrow> (int \<Rightarrow> int \<Rightarrow> int) \<Rightarrow> int \<Rightarrow> maze \<Rightarrow> maze result" where
  "generateFixedLevel to_double floor_scaled level m =
     (let seed = to_double (level * 12345)
      in bindR (generate (seeded_random to_double floor_scaled) seed m)
           (\<lambda>(m', seedValue). Returns m'))"

definition generateWithSize :: "'s random_source \<Rightarrow> 's \<Rightarrow> maze \<Rightarrow> int \<Rightarrow> (maze \<times> 's) result" where
  "generateWithSize rnd s m n = generate rnd s (m\<lparr>width := n, height := n\<rparr>)"

text \<open>
  The constructor \<^verbatim>\<open>new Maze(width, height)\<close> sets the fields and calls \<^verbatim>\<open>init\<close>.
\<close>

definition blank_maze :: "int \<Rightarrow> int \<Rightarrow> maze" where
  "blank_maze w h =
     \<lparr>width = w, height = h, cells = Map.empty,
      walls = \<lparr>horizontal = Map.empty, vertical = Map.empty\<rparr>,
      start = (0, 0), endc = (w - 1, h - 1), path = []\<rparr>"

definition new_Maze :: "int \<Rightarrow> int \<Rightarrow> js_error + maze" where
  "new_Maze w h = init (blank_maze w h)"

section \<open>Concrete random sources and grids\<close>

text \<open>
  Two instances of the parameters, for drawing concrete mazes. Every integer up to
  \<open>2\<^sup>5\<^sup>3\<close> is a double, so at level \<open>1\<close>, where \<^verbatim>\<open>seedValue * 9301 + 49297\<close> stays below
  \<open>2.2 * 10\<^sup>9\<close>, the rounding of the integers is the identity. The floor of the exact
  product \<open>seedValue * n / 233280\<close> is the floating-point result of the code for
  \<open>0 \<le> seedValue < 233280\<close> and every \<open>n\<close> up to \<open>44\<close>; the draws of a \<open>3 \<times> 3\<close> maze have
  \<open>n \<le> 4\<close>.
\<close>

definition exact_double :: "int \<Rightarrow> int" where
  "exact_double v = v"

definition exact_floor_scaled :: "int \<Rightarrow> int \<Rightarrow> int" where
  "exact_floor_scaled seedValue n = (seedValue * n) div 233280"

text \<open>A source that hands out the indices of a list, one per draw.\<close>

fun scripted :: "int list random_source" where
  "scripted [] n = (0, [])"
| "scripted (i # rest) n = (i, rest)"

text \<open>The wall arrays of a maze read as lists, row by row.\<close>

definition wall_lists :: "maze \<Rightarrow> bool option list list \<times> bool option list list" where
  "wall_lists m =
     (map (\<lambda>y. map (\<lambda>x. case horizontal (walls m) y of None \<Rightarrow> None | Some row \<Rightarrow> row x)
                 [0 .. width m - 1]) [0 .. height m],
      map (\<lambda>y. map (\<lambda>x. case vertical (walls m) y of None \<Rightarrow> None | Some row \<Rightarrow> row x)
                 [0 .. width m]) [0 .. height m - 1])"

text \<open>The \<open>2 \<times> 2\<close> grid as \<^verbatim>\<open>new Maze(2, 2)\<close> leaves it: every wall present.\<close>

definition maze_2x2 :: maze where
  "maze_2x2 = (case new_Maze 2 2 of Inr m \<Rightarrow> m | Inl e \<Rightarrow> blank_maze 2 2)"


section \<open>game.js: initialisation\<close>

text \<open>
  \<^verbatim>\<open>Game.init\<close>: a new maze of side \<^verbatim>\<open>mazeSize\<close> is constructed and generated, the player
  is put on its start, both cell sets are cleared and given the start, a new visibility
  system of view range \<open>1\<close> is created and updated, and the state is reset.
\<close>

definition Game_init :: "'s random_source \<Rightarrow> 's \<Rightarrow> game \<Rightarrow> (game \<times> 's \<times> event list) result" where
  "Game_init rnd s g =
     (case new_Maze (mazeSize (config g)) (mazeSize (config g)) of
        Inl err \<Rightarrow> Throws err
      | Inr m0 \<Rightarrow>
          bindR (generate rnd s m0) (\<lambda>(m, s1).
            let g1 = g\<lparr>maze := m,
                       player := \<lparr>playerX = fst (start m), playerY = snd (start m),
                                   prevX = fst (start m), prevY = snd (start m)\<rparr>,
                       gameExploredCells := set_add (start m) [],
                       visitedCells := set_add (start m) [],
                       viewSystem := new_ViewSystem (viewMode (config g)) 1\<rparr>
            in bindR (updateVisibility g1) (\<lambda>(g2, evs).
                 Returns (g2\<lparr>state := \<lparr>isRunning = False, isPaused = False, isGameOver = False,
                                          isVictory = False, moves = 0, startTime = None,
                                          endTime = None\<rparr>\<rparr>, s1, evs))))"

text \<open>\<^verbatim>\<open>Game.start\<close>, with the reading of \<^verbatim>\<open>Date.now()\<close>.\<close>

definition Game_start :: "game \<Rightarrow> int \<Rightarrow> game \<times> event list" where
  "Game_start g now =
     (if isRunning (state g) then (g, [])
      else (g\<lparr>state := (state g)\<lparr>isRunning := True, startTime := Some now,
                                  isGameOver := False, isVictory := False\<rparr>\<rparr>,
            [OnGameStart]))"


section \<open>Operations of a session, and the states the claims speak about\<close>

text \<open>
  The calls a user interface makes on one \<^verbatim>\<open>Game\<close> between two restarts; \<open>MovePlayer\<close>
  carries the clock reading of the call.
\<close>

datatype game_op = MovePlayer int int int | SetViewMode string | UpdateVisibility

fun apply_op :: "game \<Rightarrow> game_op \<Rightarrow> game result" where
  "apply_op g (MovePlayer now dx dy) = bindR (movePlayer g now dx dy) (\<lambda>(ok, g', evs). Returns g')"
| "apply_op g (SetViewMode md) = bindR (setViewMode g md) (\<lambda>(g', evs). Returns g')"
| "apply_op g UpdateVisibility = bindR (updateVisibility g) (\<lambda>(g', evs). Returns g')"

fun run_ops :: "game \<Rightarrow> game_op list \<Rightarrow> game result" where
  "run_ops g [] = Returns g"
| "run_ops g (op # ops) = bindR (apply_op g op) (\<lambda>g'. run_ops g' ops)"

text \<open>What a call returned, if it returned.\<close>

definition returned :: "'a result \<Rightarrow> 'a option" where
  "returned r = (case r of Some (Inr v) \<Rightarrow> Some v | _ \<Rightarrow> None)"

text \<open>
  The rows that \<^verbatim>\<open>Maze.init\<close> allocates: \<^verbatim>\<open>walls.vertical\<close> has the rows \<open>0 .. height - 1\<close>
  and \<^verbatim>\<open>walls.horizontal\<close> the rows \<open>0 .. height\<close>.
\<close>

definition rows_ok :: "maze \<Rightarrow> bool" where
  "rows_ok m \<longleftrightarrow>
     (\<forall>y. 0 \<le> y \<and> y < height m \<longrightarrow>
        vertical (walls m) y \<noteq> None \<and> horizontal (walls m) y \<noteq> None
        \<and> horizontal (walls m) (y + 1) \<noteq> None)"

definition in_grid :: "maze \<Rightarrow> cell \<Rightarrow> bool" where
  "in_grid m c \<longleftrightarrow> 0 \<le> fst c \<and> fst c < width m \<and> 0 \<le> snd c \<and> snd c < height m"

text \<open>
  The current window of a viewer: the cells of the grid within \<open>r\<close> in both coordinates
  to which \<^verbatim>\<open>hasLineOfSight\<close> returns true.
\<close>

definition visibleWindow :: "maze \<Rightarrow> int \<Rightarrow> int \<Rightarrow> int \<Rightarrow> cell set" where
  "visibleWindow m vx vy r =
     {c. \<bar>fst c - vx\<bar> \<le> r \<and> \<bar>snd c - vy\<bar> \<le> r \<and> in_grid m c
         \<and> hasLineOfSight m vx vy (fst c) (snd c) = Returns True}"

text \<open>
  A visibility system is bound to one grid: what its cache holds was computed on that
  grid. (\<^verbatim>\<open>Game.init\<close> creates a new \<^verbatim>\<open>ViewSystem\<close> for every new maze.)
\<close>

definition cache_ok :: "viewsys \<Rightarrow> maze \<Rightarrow> bool" where
  "cache_ok vs m \<longleftrightarrow>
     (\<forall>vx vy r cached. cache vs (vx, vy, r) = Some cached \<longrightarrow>
        scan_cells m vx vy (window vx vy r) [] = Returns cached)"

text \<open>
  A wall on the straight line between two cells of one row or one column: one of the
  edges crossed on the way from the first cell to the second is walled.
\<close>

definition wall_on_straight_line :: "maze \<Rightarrow> int \<Rightarrow> int \<Rightarrow> int \<Rightarrow> int \<Rightarrow> bool" where
  "wall_on_straight_line m x1 y1 x2 y2 \<longleftrightarrow>
     (y1 = y2 \<and> (\<exists>k \<in> {x1 ..< x2}. canMove m k y1 1 0 = Inr False)) \<or>
     (y1 = y2 \<and> (\<exists>k \<in> {x2 <.. x1}. canMove m k y1 (- 1) 0 = Inr False)) \<or>
     (x1 = x2 \<and> (\<exists>k \<in> {y1 ..< y2}. canMove m x1 k 0 1 = Inr False)) \<or>
     (x1 = x2 \<and> (\<exists>k \<in> {y2 <.. y1}. canMove m x1 k 0 (- 1) = Inr False))"

text \<open>The four tests by which \<^verbatim>\<open>movePlayer\<close> rejects a call.\<close>

definition rejected :: "game \<Rightarrow> int \<Rightarrow> int \<Rightarrow> bool" where
  "rejected g dx dy \<longleftrightarrow>
     \<not> isRunning (state g) \<or> isPaused (state g) \<or> isGameOver (state g)
     \<or> (dx = 0 \<and> dy = 0) \<or> \<bar>dx\<bar> > 1 \<or> \<bar>dy\<bar> > 1
     \<or> playerX (player g) + dx < 0 \<or> playerX (player g) + dx \<ge> mazeSize (config g)
     \<or> playerY (player g) + dy < 0 \<or> playerY (player g) + dy \<ge> mazeSize (config g)
     \<or> canMove (maze g) (playerX (player g)) (playerY (player g)) dx dy = Inr False"

text \<open>The state an accepted move commits before the visibility is updated, and its event.\<close>

definition committed :: "game \<Rightarrow> int \<Rightarrow> int \<Rightarrow> game" where
  "committed g dx dy =
     g\<lparr>player := \<lparr>playerX = playerX (player g) + dx, playerY = playerY (player g) + dy,
                   prevX = playerX (player g), prevY = playerY (player g)\<rparr>,
       state := (state g)\<lparr>moves := moves (state g) + 1\<rparr>,
       visitedCells := set_add (playerX (player g) + dx, playerY (player g) + dy) (visitedCells g)\<rparr>"

definition move_event :: "game \<Rightarrow> int \<Rightarrow> int \<Rightarrow> event" where
  "move_event g dx dy =
     OnMove (playerX (player g), playerY (player g))
            (playerX (player g) + dx, playerY (player g) + dy) (moves (state g) + 1)"

definition is_explored_event :: "event \<Rightarrow> bool" where
  "is_explored_event e = (case e of OnCellExplored x y n t \<Rightarrow> True | _ \<Rightarrow> False)"

definition is_victory_event :: "event \<Rightarrow> bool" where
  "is_victory_event e = (case e of OnVictory mv t n c \<Rightarrow> True | _ \<Rightarrow> False)"

text \<open>
  A game as \<^verbatim>\<open>Game.init\<close> builds it and \<^verbatim>\<open>movePlayer\<close> keeps it: a square maze of side
  \<^verbatim>\<open>mazeSize\<close> with its rows allocated, and the player on a cell of it.
\<close>

definition game_ok :: "game \<Rightarrow> bool" where
  "game_ok g \<longleftrightarrow> rows_ok (maze g)
     \<and> height (maze g) = mazeSize (config g)
     \<and> 0 \<le> playerX (player g) \<and> playerX (player g) < mazeSize (config g)
     \<and> 0 \<le> playerY (player g) \<and> playerY (player g) < mazeSize (config g)"

section \<open>A \<open>3 \<times> 3\<close> maze and a game on it\<close>

text \<open>
  The maze is one corridor, row \<open>0\<close> from left to right, row \<open>1\<close> back, row \<open>2\<close> to the
  right again; the start is \<open>(0, 0)\<close> and the end \<open>(2, 2)\<close>. The depth-first carving
  produces it when every random choice continues the corridor.
\<close>

definition maze_3x3 :: maze where
  "maze_3x3 =
     \<lparr>width = 3, height = 3,
      cells = array_of (map array_of [[True, True, True], [True, True, True], [True, True, True]]),
      walls = \<lparr>horizontal = array_of (map array_of
                  [[True, True, True], [True, True, False], [False, True, True], [True, True, True]]),
                vertical = array_of (map array_of
                  [[True, False, False, True], [True, False, False, True],
                   [True, False, False, True]])\<rparr>,
      start = (0, 0), endc = (2, 2),
      path = [(0, 0), (1, 0), (2, 0), (2, 1), (1, 1), (0, 1), (0, 2), (1, 2), (2, 2)]\<rparr>"

text \<open>
  The visibility system after the first \<^verbatim>\<open>update\<close> at the start cell (view range \<open>1\<close>), and
  the running game around it, before its first move.
\<close>

definition vs_3x3 :: "string \<Rightarrow> viewsys" where
  "vs_3x3 md =
     \<lparr>mode = md, viewRange = 1,
      visibleCells = [(0, 0), (1, 0), (1, 1)],
      exploredCells = [(0, 0), (1, 0), (1, 1)],
      permanentCells = (if md = ''permanent'' then [(0, 0), (1, 0), (1, 1)] else []),
      cache = [(0, 0, 1) \<mapsto> [(0, 0), (1, 0), (1, 1)]]\<rparr>"

definition game_3x3 :: "string \<Rightarrow> game" where
  "game_3x3 md =
     \<lparr>config = \<lparr>mazeSize = 3, viewMode = md, cellSize = 40, showSolution = False\<rparr>,
      state = \<lparr>isRunning = True, isPaused = False, isGameOver = False, isVictory = False,
               moves = 0, startTime = Some 1000, endTime = None\<rparr>,
      maze = maze_3x3,
      player = \<lparr>playerX = 0, playerY = 0, prevX = 0, prevY = 0\<rparr>,
      viewSystem = vs_3x3 md,
      gameExploredCells = [(0, 0), (1, 0), (1, 1)],
      visitedCells = [(0, 0)]\<rparr>"

text \<open>
  The permanent-mode visibility system after the viewer stepped from \<open>(0, 0)\<close> to
  \<open>(1, 0)\<close>.
\<close>

definition vs_seen :: viewsys where
  "vs_seen =
     \<lparr>mode = ''permanent'', viewRange = 1,
      visibleCells = [(0, 0), (1, 0), (2, 0), (0, 1), (2, 1), (1, 1)],
      exploredCells = [(0, 0), (1, 0), (1, 1), (2, 0), (0, 1), (2, 1)],
      permanentCells = [(0, 0), (1, 0), (1, 1), (2, 0), (0, 1), (2, 1)],
      cache = [(0, 0, 1) \<mapsto> [(0, 0), (1, 0), (1, 1)],
               (1, 0, 1) \<mapsto> [(0, 0), (1, 0), (2, 0), (0, 1), (2, 1)]]\<rparr>"


text \<open>A source whose draws for \<open>n\<close> are indices below \<open>n\<close>, as \<^verbatim>\<open>Math.random\<close> promises.\<close>

definition draws_in_range :: "'s random_source \<Rightarrow> bool" where
  "draws_in_range rnd \<longleftrightarrow> (\<forall>s n. 0 < n \<longrightarrow> 0 \<le> fst (rnd s n) \<and> fst (rnd s n) < n)"

text \<open>The fields of a \<^verbatim>\<open>Game\<close> as its constructor sets them before it calls \<^verbatim>\<open>init\<close>.\<close>

definition blank_game :: "int \<Rightarrow> string \<Rightarrow> game" where
  "blank_game n md =
     \<lparr>config = \<lparr>mazeSize = n, viewMode = md, cellSize = 40, showSolution = False\<rparr>,
      state = \<lparr>isRunning = False, isPaused = False, isGameOver = False, isVictory = False,
               moves = 0, startTime = None, endTime = None\<rparr>,
      maze = blank_maze n n,
      player = \<lparr>playerX = 0, playerY = 0, prevX = 0, prevY = 0\<rparr>,
      viewSystem = new_ViewSystem md 1,
      gameExploredCells = [],
      visitedCells = []\<rparr>"

text \<open>What a game holds, with the wall arrays as lists and one cache entry.\<close>

definition game_summary ::
  "game \<Rightarrow> config \<times> game_state \<times> (bool option list list \<times> bool option list list) \<times> cell \<times> cell
     \<times> cell list \<times> player \<times> cell list \<times> cell list \<times> string \<times> int \<times> cell list \<times> cell list
     \<times> cell list \<times> cell list option" where
  "game_summary g = (config g, state g, wall_lists (maze g), start (maze g), endc (maze g),
     path (maze g), player g, gameExploredCells g, visitedCells g,
     mode (viewSystem g), viewRange (viewSystem g), visibleCells (viewSystem g),
     exploredCells (viewSystem g), permanentCells (viewSystem g), cache (viewSystem g) (0, 0, 1))"


section \<open>Paths in the grid, and the state of the breadth-first search\<close>

definition valid_step :: "maze \<Rightarrow> cell \<Rightarrow> cell \<Rightarrow> bool" where
  "valid_step m a b \<longleftrightarrow>
     (\<exists>d \<in> set bfs_directions. b = (fst a + fst d, snd a + snd d)
        \<and> canMove m (fst a) (snd a) (fst d) (snd d) = Inr True)"

fun is_path :: "maze \<Rightarrow> cell list \<Rightarrow> bool" where
  "is_path m [] = False"
| "is_path m [c] = in_grid m c"
| "is_path m (a # b # rest) = (in_grid m a \<and> valid_step m a b \<and> is_path m (b # rest))"

inductive reach :: "maze \<Rightarrow> nat \<Rightarrow> cell \<Rightarrow> bool" for m where
  reach_start: "in_grid m (start m) \<Longrightarrow> reach m 0 (start m)"
| reach_step: "reach m n a \<Longrightarrow> valid_step m a b \<Longrightarrow> in_grid m b \<Longrightarrow> reach m (Suc n) b"

definition dist :: "maze \<Rightarrow> cell \<Rightarrow> nat" where
  "dist m c = (LEAST n. reach m n c)"

definition seen :: "bool js_array js_array \<Rightarrow> cell \<Rightarrow> bool" where
  "seen visited c \<longleftrightarrow> truthy_at visited (snd c) (fst c) = Inr True"

definition has_rows :: "int \<Rightarrow> 'a js_array js_array \<Rightarrow> bool" where
  "has_rows h a \<longleftrightarrow> (\<forall>y. 0 \<le> y \<and> y < h \<longrightarrow> a y \<noteq> None)"

definition parent_of :: "cell option js_array js_array \<Rightarrow> cell \<Rightarrow> js_error + cell option option" where
  "parent_of parent c = read2 parent (snd c) (fst c)"

definition tree_ok :: "maze \<Rightarrow> bool js_array js_array \<Rightarrow> cell option js_array js_array \<Rightarrow> bool" where
  "tree_ok m visited parent \<longleftrightarrow>
     seen visited (start m) \<and> parent_of parent (start m) = Inr (Some None)
     \<and> (\<forall>c. seen visited c \<longrightarrow> in_grid m c \<and> (\<exists>n. reach m n c))
     \<and> (\<forall>c. seen visited c \<and> c \<noteq> start m \<longrightarrow>
           (\<exists>p. parent_of parent c = Inr (Some (Some p)) \<and> seen visited p
                \<and> valid_step m p c \<and> dist m c = Suc (dist m p)))"

definition bfs_inv ::
  "maze \<Rightarrow> bool js_array js_array \<Rightarrow> cell option js_array js_array \<Rightarrow> cell list \<Rightarrow> bool" where
  "bfs_inv m visited parent queue \<longleftrightarrow>
     has_rows (height m) visited \<and> has_rows (height m) parent \<and> tree_ok m visited parent
     \<and> (\<forall>c \<in> set queue. seen visited c)
     \<and> sorted (map (dist m) queue)
     \<and> (\<forall>c \<in> set queue. dist m c \<le> Suc (dist m (hd queue)))
     \<and> (queue \<noteq> [] \<longrightarrow> (\<forall>c n. reach m n c \<and> dist m c \<le> dist m (hd queue) \<longrightarrow> seen visited c))
     \<and> (\<forall>c. seen visited c \<and> c \<notin> set queue \<longrightarrow>
           c \<noteq> endc m \<and> (\<forall>b. valid_step m c b \<and> in_grid m b \<longrightarrow> seen visited b))"

definition walls_rows :: "int \<Rightarrow> wallset \<Rightarrow> bool" where
  "walls_rows h ws \<longleftrightarrow> has_rows (h + 1) (horizontal ws) \<and> has_rows h (vertical ws)"


section \<open>Facts about the visibility system\<close>

lemma canMove_x_defined:
  assumes "rows_ok m" "0 \<le> y" "y < height m" "dx = 1 \<or> dx = - 1"
  shows "\<exists>b. canMove m x y dx dy = Inr b"
  using assms by (auto simp: canMove_def canMoveW_def truthy_at_def rows_ok_def split: option.splits)

lemma canMove_y_defined:
  assumes "rows_ok m" "0 \<le> y" "y < height m" "dy = 1 \<or> dy = - 1"
  shows "\<exists>b. canMove m x y 0 dy = Inr b"
  using assms by (auto simp: canMove_def canMoveW_def truthy_at_def rows_ok_def split: option.splits)

lemma los_loop_returns_aux:
  fixes a b :: int
  assumes "rows_ok m"
    and "sx = 1 \<or> sx = - 1" and "sy = 1 \<or> sy = - 1"
    and "0 \<le> dx" and "0 \<le> dy"
  shows "nat (a + b) = n \<Longrightarrow> 0 \<le> a \<Longrightarrow> a \<le> dx \<Longrightarrow> 0 \<le> b \<Longrightarrow> b \<le> dy \<Longrightarrow>
     (\<forall>k. 0 \<le> k \<and> k \<le> b \<longrightarrow> 0 \<le> y2 - sy * k \<and> y2 - sy * k < height m) \<Longrightarrow>
     err = dx - dy + a * dy - b * dx \<Longrightarrow>
     \<exists>r. los_loop m x2 y2 dx dy sx sy (x2 - sx * a) (y2 - sy * b) err = Returns r"
proof (induction n arbitrary: a b err rule: less_induct)
  case (less n)
  show ?case
  proof (cases "a = 0 \<and> b = 0")
    case True
    then show ?thesis by (subst los_loop.simps) auto
  next
    case False
    define stepX where "stepX = (2 * err > - dy)"
    define stepY where "stepY = (2 * err < dx)"
    have notat: "\<not> (x2 - sx * a = x2 \<and> y2 - sy * b = y2)"
      using False assms(2,3) by auto
    have sx_a: "stepX \<Longrightarrow> 0 < a"
    proof (rule ccontr)
      assume s: stepX and "\<not> 0 < a"
      then have a0: "a = 0" using less.prems by simp
      then have "1 \<le> b" using False less.prems by simp
      then have "dx \<le> b * dx" using assms(4) by (simp add: mult_le_cancel_right1)
      then show False using s a0 less.prems(7) assms(5) by (simp add: stepX_def)
    qed
    have sy_b: "stepY \<Longrightarrow> 0 < b"
    proof (rule ccontr)
      assume s: stepY and "\<not> 0 < b"
      then have b0: "b = 0" using less.prems by simp
      then have "1 \<le> a" using False less.prems by simp
      then have "dy \<le> a * dy" using assms(5) by (simp add: mult_le_cancel_right1)
      then show False using s b0 less.prems(7) assms(4) by (simp add: stepY_def)
    qed
    have some: "stepX \<or> stepY"
    proof (rule ccontr)
      assume "\<not> (stepX \<or> stepY)"
      then have "2 * err \<le> - dy" "dx \<le> 2 * err" by (auto simp: stepX_def stepY_def)
      then have "dx = 0" "dy = 0" using assms(4,5) by auto
      then show False using False less.prems by auto
    qed
    have cy: "0 \<le> y2 - sy * b" "y2 - sy * b < height m"
      using less.prems(6) less.prems(4) by auto
    define a' where "a' = (if stepX then a - 1 else a)"
    define b' where "b' = (if stepY then b - 1 else b)"
    define err' where "err' = (if stepY then (if stepX then err - dy else err) + dx else (if stepX then err - dy else err))"
    define mx where "mx = (if stepX then sx else 0)"
    define my where "my = (if stepY then sy else 0)"
    have cm: "\<exists>ok. canMove m (x2 - sx * a) (y2 - sy * b) mx my = Inr ok"
    proof (cases stepX)
      case True
      then show ?thesis using canMove_x_defined[OF assms(1) cy] assms(2) by (simp add: mx_def)
    next
      case False
      then have "stepY" using some by simp
      then show ?thesis using False canMove_y_defined[OF assms(1) cy] assms(3) by (simp add: mx_def my_def)
    qed
    then obtain ok where ok: "canMove m (x2 - sx * a) (y2 - sy * b) mx my = Inr ok" by blast
    have unfold1: "los_loop m x2 y2 dx dy sx sy (x2 - sx * a) (y2 - sy * b) err =
       (if \<not> ok then Returns False else los_loop m x2 y2 dx dy sx sy (x2 - sx * a') (y2 - sy * b') err')"
      apply (subst los_loop.simps)
      using notat ok
      apply (simp add: Let_def stepX_def[symmetric] stepY_def[symmetric])
      apply (auto simp: mx_def my_def a'_def b'_def err'_def algebra_simps)
      done
    show ?thesis
    proof (cases ok)
      case False
      then show ?thesis using unfold1 by auto
    next
      case True
      have lt: "nat (a' + b') < n" using some sx_a sy_b less.prems by (auto simp: a'_def b'_def)
      have e: "err' = dx - dy + a' * dy - b' * dx"
        using less.prems(7) by (auto simp: err'_def a'_def b'_def algebra_simps)
      have rng: "0 \<le> a'" "a' \<le> dx" "0 \<le> b'" "b' \<le> dy"
        using sx_a sy_b less.prems by (auto simp: a'_def b'_def)
      have ys: "\<forall>k. 0 \<le> k \<and> k \<le> b' \<longrightarrow> 0 \<le> y2 - sy * k \<and> y2 - sy * k < height m"
        using less.prems(6) by (auto simp: b'_def)
      from less.IH[OF lt refl rng ys e] show ?thesis using unfold1 True by simp
    qed
  qed
qed

lemma set_set_add [simp]: "set (set_add k s) = insert k (set s)"
  by (auto simp: set_add_def)

lemma distinct_set_add [simp]: "distinct s \<Longrightarrow> distinct (set_add k s)"
  by (simp add: set_add_def)

lemma set_set_add_all [simp]: "set (set_add_all ks s) = set ks \<union> set s"
  unfolding set_add_all_def by (induction ks arbitrary: s) auto

lemma distinct_set_add_all [simp]: "distinct s \<Longrightarrow> distinct (set_add_all ks s)"
  unfolding set_add_all_def by (induction ks arbitrary: s) auto

lemma set_add_all_prefix: "distinct (s @ ks) \<Longrightarrow> fold set_add ks s = s @ ks"
  by (induction ks arbitrary: s) (auto simp: set_add_def)

lemma set_add_all_distinct_Nil: "distinct ks \<Longrightarrow> set_add_all ks [] = ks"
  using set_add_all_prefix[of "[]" ks] by (simp add: set_add_all_def)

lemma set_window: "set (window vx vy r) = {c. \<bar>fst c - vx\<bar> \<le> r \<and> \<bar>snd c - vy\<bar> \<le> r}"
  by (auto simp: window_def image_iff) (smt (verit, best) atLeastAtMost_iff)+

lemma bindR_Returns: "bindR r f = Returns v \<longleftrightarrow> (\<exists>u. r = Returns u \<and> f u = Returns v)"
  by (auto simp: bindR_def split: option.splits sum.splits)

lemma scan_cells_set:
  "scan_cells m vx vy cs vis = Returns out \<Longrightarrow>
   set out = set vis \<union> {c \<in> set cs. in_grid m c \<and> hasLineOfSight m vx vy (fst c) (snd c) = Returns True}"
proof (induction cs arbitrary: vis)
  case Nil
  then show ?case by simp
next
  case (Cons c cs)
  obtain cx cy where c: "c = (cx, cy)" by (cases c)
  show ?case
  proof (cases "in_grid m c")
    case False
    then have "scan_cells m vx vy cs vis = Returns out"
      using Cons.prems c by (auto simp: in_grid_def)
    from Cons.IH[OF this] show ?thesis using False by auto
  next
    case True
    then obtain sees where s: "hasLineOfSight m vx vy cx cy = Returns sees"
      and r: "scan_cells m vx vy cs (if sees then set_add (cx, cy) vis else vis) = Returns out"
      using Cons.prems c by (auto simp: in_grid_def bindR_Returns)
    from Cons.IH[OF r] show ?thesis using s True c by auto
  qed
qed

lemma scan_cells_distinct:
  "scan_cells m vx vy cs vis = Returns out \<Longrightarrow> distinct vis \<Longrightarrow> distinct out"
proof (induction cs arbitrary: vis)
  case Nil
  then show ?case by simp
next
  case (Cons c cs)
  obtain cx cy where c: "c = (cx, cy)" by (cases c)
  show ?case using Cons.prems Cons.IH c
    by (auto simp: bindR_Returns split: if_splits)
qed

lemma scan_window_set:
  "scan_cells m vx vy (window vx vy r) [] = Returns out \<Longrightarrow> set out = visibleWindow m vx vy r"
  by (drule scan_cells_set) (auto simp: set_window visibleWindow_def)

lemma calculateVisibleArea_result:
  assumes "calculateVisibleArea vs vx vy m = Returns (vis, vs1)" and "cache_ok vs m"
  shows "set vis = visibleWindow m vx vy (viewRange vs) \<and> distinct vis
         \<and> vs1 = vs\<lparr>cache := cache vs1\<rparr> \<and> cache_ok vs1 m
         \<and> scan_cells m vx vy (window vx vy (viewRange vs)) [] = Returns vis"
proof (cases "cache vs (vx, vy, viewRange vs)")
  case None
  then have s: "scan_cells m vx vy (window vx vy (viewRange vs)) [] = Returns vis"
    and v: "vs1 = vs\<lparr>cache := (cache vs)((vx, vy, viewRange vs) \<mapsto> vis)\<rparr>"
    using assms(1) by (auto simp: calculateVisibleArea_def bindR_Returns)
  have "cache_ok vs1 m" using assms(2) s v by (auto simp: cache_ok_def)
  then show ?thesis using s v scan_window_set[OF s] scan_cells_distinct[OF s] by simp
next
  case (Some cached)
  then have s: "scan_cells m vx vy (window vx vy (viewRange vs)) [] = Returns cached"
    using assms(2) by (simp add: cache_ok_def)
  have d: "distinct cached" using scan_cells_distinct[OF s] by simp
  have "vis = set_add_all cached []" "vs1 = vs" using assms(1) Some by (auto simp: calculateVisibleArea_def)
  then have "vis = cached" "vs1 = vs" using set_add_all_distinct_Nil[OF d] by auto
  then show ?thesis using s scan_window_set[OF s] d assms(2) by simp
qed


lemma hasLineOfSight_returns:
  assumes "rows_ok m" "0 \<le> y1" "y1 < height m" "0 \<le> y2" "y2 < height m"
  shows "\<exists>r. hasLineOfSight m x1 y1 x2 y2 = Returns r"
proof -
  define dx where "dx = \<bar>x2 - x1\<bar>"
  define dy where "dy = \<bar>y2 - y1\<bar>"
  define sx :: int where "sx = (if x1 < x2 then 1 else - 1)"
  define sy :: int where "sy = (if y1 < y2 then 1 else - 1)"
  have x1: "x1 = x2 - sx * dx" by (auto simp: sx_def dx_def)
  have y1: "y1 = y2 - sy * dy" by (auto simp: sy_def dy_def)
  have ys: "\<forall>k. 0 \<le> k \<and> k \<le> dy \<longrightarrow> 0 \<le> y2 - sy * k \<and> y2 - sy * k < height m"
    using assms(2-5) by (auto simp: sy_def dy_def)
  have "\<exists>r. los_loop m x2 y2 dx dy sx sy (x2 - sx * dx) (y2 - sy * dy) (dx - dy) = Returns r"
    by (rule los_loop_returns_aux[OF assms(1), where n = "nat (dx + dy)"])
       (use ys in \<open>auto simp: sx_def sy_def dx_def dy_def\<close>)
  then have "\<exists>r. los_loop m x2 y2 dx dy sx sy x1 y1 (dx - dy) = Returns r"
    unfolding x1[symmetric] y1[symmetric] .
  moreover have "hasLineOfSight m x1 y1 x2 y2 = los_loop m x2 y2 dx dy sx sy x1 y1 (dx - dy)"
    by (simp add: hasLineOfSight_def Let_def dx_def dy_def sx_def sy_def)
  ultimately show ?thesis by simp
qed


lemma scan_cells_returns:
  assumes "rows_ok m" "0 \<le> vy" "vy < height m"
  shows "\<exists>out. scan_cells m vx vy cs vis = Returns out"
proof (induction cs arbitrary: vis)
  case Nil
  then show ?case by simp
next
  case (Cons c cs)
  obtain cx cy where c: "c = (cx, cy)" by (cases c)
  show ?case
  proof (cases "cx \<ge> 0 \<and> cx < width m \<and> cy \<ge> 0 \<and> cy < height m")
    case False
    then show ?thesis using Cons.IH[of vis] c by auto
  next
    case True
    then obtain sees where "hasLineOfSight m vx vy cx cy = Returns sees"
      using hasLineOfSight_returns[OF assms(1) assms(2,3), of cy vx cx] by auto
    then show ?thesis using True c Cons.IH[of "if sees then set_add (cx, cy) vis else vis"]
      by (auto simp: bindR_def)
  qed
qed

lemma calculateVisibleArea_returns:
  assumes "rows_ok m" "0 \<le> vy" "vy < height m"
  shows "\<exists>vis vs1. calculateVisibleArea vs vx vy m = Returns (vis, vs1)"
proof (cases "cache vs (vx, vy, viewRange vs)")
  case None
  obtain out where "scan_cells m vx vy (window vx vy (viewRange vs)) [] = Returns out"
    using scan_cells_returns[OF assms] by blast
  then show ?thesis using None by (simp add: calculateVisibleArea_def bindR_def)
next
  case (Some a)
  then show ?thesis by (simp add: calculateVisibleArea_def)
qed

lemma update_returns:
  assumes "rows_ok m" "0 \<le> vy" "vy < height m"
  shows "\<exists>vis vs'. update vs vx vy m = Returns (vis, vs')"
proof -
  obtain vis vs1 where "calculateVisibleArea vs vx vy m = Returns (vis, vs1)"
    using calculateVisibleArea_returns[OF assms] by blast
  then show ?thesis by (simp add: update_def bindR_def Let_def)
qed

lemma update_cases:
  assumes "update vs vx vy m = Returns (vis, vs')"
  shows "\<exists>newVisible vs1. calculateVisibleArea vs vx vy m = Returns (newVisible, vs1)
    \<and> (mode vs1 = ''permanent'' \<longrightarrow>
           vis = set_add_all (set_add_all newVisible (permanentCells vs1)) newVisible
           \<and> vs' = vs1\<lparr>visibleCells := vis,
                       exploredCells := set_add_all newVisible (exploredCells vs1),
                       permanentCells := set_add_all newVisible (permanentCells vs1)\<rparr>)
    \<and> (mode vs1 \<noteq> ''permanent'' \<longrightarrow>
           vis = newVisible
           \<and> vs' = vs1\<lparr>visibleCells := newVisible, exploredCells := set_add_all newVisible []\<rparr>)"
  using assms unfolding update_def bindR_Returns
  by (auto simp: Let_def split: if_splits)

lemma calculateVisibleArea_fields:
  assumes "calculateVisibleArea vs vx vy m = Returns (vis, vs1)"
  shows "mode vs1 = mode vs" "viewRange vs1 = viewRange vs" "visibleCells vs1 = visibleCells vs"
    "exploredCells vs1 = exploredCells vs" "permanentCells vs1 = permanentCells vs"
  using assms by (auto simp: calculateVisibleArea_def bindR_Returns split: option.splits)

lemma los_row_blocked:
  assumes "0 < dx" "sx = 1 \<or> sx = - 1"
  shows "nat a = n \<Longrightarrow> 0 \<le> a \<Longrightarrow>
     (\<exists>k. 0 < k \<and> k \<le> a \<and> canMove m (x2 - sx * k) y sx 0 \<noteq> Inr True) \<Longrightarrow>
     los_loop m x2 y dx 0 sx sy (x2 - sx * a) y dx \<noteq> Returns True"
proof (induction n arbitrary: a)
  case 0
  then show ?case by auto
next
  case (Suc n)
  then obtain k where k: "0 < k" "k \<le> a" "canMove m (x2 - sx * k) y sx 0 \<noteq> Inr True" by blast
  have a: "0 < a" using Suc.prems by auto
  have notat: "x2 - sx * a \<noteq> x2" using a assms(2) by auto
  have nx: "x2 - sx * a + sx = x2 - sx * (a - 1)" by (simp add: algebra_simps)
  show ?case
  proof (cases "canMove m (x2 - sx * a) y sx 0")
    case (Inl e)
    then show ?thesis using notat assms(1) by (subst los_loop.simps) (simp add: Let_def)
  next
    case (Inr ok)
    show ?thesis
    proof (cases ok)
      case False
      then show ?thesis using notat assms(1) Inr by (subst los_loop.simps) (simp add: Let_def)
    next
      case True
      then have "k \<noteq> a" using k(3) Inr by auto
      then have "\<exists>k. 0 < k \<and> k \<le> a - 1 \<and> canMove m (x2 - sx * k) y sx 0 \<noteq> Inr True"
        using k by (intro exI[of _ k]) auto
      then have "los_loop m x2 y dx 0 sx sy (x2 - sx * (a - 1)) y dx \<noteq> Returns True"
        using Suc.IH[of "a - 1"] Suc.prems a by auto
      then have "los_loop m x2 y dx 0 sx sy (x2 - sx * a + sx) y dx \<noteq> Returns True"
        unfolding nx .
      then show ?thesis using notat assms(1) Inr True
        by (subst los_loop.simps) (simp add: Let_def)
    qed
  qed
qed

lemma los_col_blocked:
  assumes "0 < dy" "sy = 1 \<or> sy = - 1" "sx = 1 \<or> sx = - 1"
  shows "nat b = n \<Longrightarrow> 0 \<le> b \<Longrightarrow>
     (\<exists>k. 0 < k \<and> k \<le> b \<and> canMove m x (y2 - sy * k) 0 sy \<noteq> Inr True) \<Longrightarrow>
     los_loop m x y2 0 dy sx sy x (y2 - sy * b) (- dy) \<noteq> Returns True"
proof (induction n arbitrary: b)
  case 0
  then show ?case by auto
next
  case (Suc n)
  then obtain k where k: "0 < k" "k \<le> b" "canMove m x (y2 - sy * k) 0 sy \<noteq> Inr True" by blast
  have b: "0 < b" using Suc.prems by auto
  have notat: "y2 - sy * b \<noteq> y2" using b assms(2) by auto
  have ny: "y2 - sy * b + sy = y2 - sy * (b - 1)" by (simp add: algebra_simps)
  show ?case
  proof (cases "canMove m x (y2 - sy * b) 0 sy")
    case (Inl e)
    then show ?thesis using notat assms(1) by (subst los_loop.simps) (simp add: Let_def)
  next
    case (Inr ok)
    show ?thesis
    proof (cases ok)
      case False
      then show ?thesis using notat assms(1) Inr by (subst los_loop.simps) (simp add: Let_def)
    next
      case True
      then have "k \<noteq> b" using k(3) Inr by auto
      then have "\<exists>k. 0 < k \<and> k \<le> b - 1 \<and> canMove m x (y2 - sy * k) 0 sy \<noteq> Inr True"
        using k by (intro exI[of _ k]) auto
      then have "los_loop m x y2 0 dy sx sy x (y2 - sy * (b - 1)) (- dy) \<noteq> Returns True"
        using Suc.IH[of "b - 1"] Suc.prems b by auto
      then have "los_loop m x y2 0 dy sx sy x (y2 - sy * b + sy) (- dy) \<noteq> Returns True"
        unfolding ny .
      then show ?thesis using notat assms(1) Inr True
        by (subst los_loop.simps) (simp add: Let_def)
    qed
  qed
qed

lemma hasLineOfSight_blocked_right:
  assumes "x1 \<le> k" "k < x2" "canMove m k y 1 0 \<noteq> Inr True"
  shows "hasLineOfSight m x1 y x2 y \<noteq> Returns True"
proof -
  have "\<exists>j. 0 < j \<and> j \<le> x2 - x1 \<and> canMove m (x2 - 1 * j) y 1 0 \<noteq> Inr True"
    using assms by (intro exI[of _ "x2 - k"]) auto
  then have "los_loop m x2 y (x2 - x1) 0 1 (- 1) (x2 - 1 * (x2 - x1)) y (x2 - x1) \<noteq> Returns True"
    using assms by (intro los_row_blocked[where n = "nat (x2 - x1)"]) auto
  then show ?thesis using assms by (simp add: hasLineOfSight_def Let_def)
qed

lemma hasLineOfSight_blocked_left:
  assumes "x2 < k" "k \<le> x1" "canMove m k y (- 1) 0 \<noteq> Inr True"
  shows "hasLineOfSight m x1 y x2 y \<noteq> Returns True"
proof -
  have "\<exists>j. 0 < j \<and> j \<le> x1 - x2 \<and> canMove m (x2 - (- 1) * j) y (- 1) 0 \<noteq> Inr True"
    using assms by (intro exI[of _ "k - x2"]) auto
  then have "los_loop m x2 y (x1 - x2) 0 (- 1) (- 1) (x2 - (- 1) * (x1 - x2)) y (x1 - x2) \<noteq> Returns True"
    using assms by (intro los_row_blocked[where n = "nat (x1 - x2)"]) auto
  then show ?thesis using assms by (simp add: hasLineOfSight_def Let_def)
qed

lemma hasLineOfSight_blocked_down:
  assumes "y1 \<le> k" "k < y2" "canMove m x k 0 1 \<noteq> Inr True"
  shows "hasLineOfSight m x y1 x y2 \<noteq> Returns True"
proof -
  have "\<exists>j. 0 < j \<and> j \<le> y2 - y1 \<and> canMove m x (y2 - 1 * j) 0 1 \<noteq> Inr True"
    using assms by (intro exI[of _ "y2 - k"]) auto
  then have "los_loop m x y2 0 (y2 - y1) (- 1) 1 x (y2 - 1 * (y2 - y1)) (- (y2 - y1)) \<noteq> Returns True"
    using assms by (intro los_col_blocked[where n = "nat (y2 - y1)"]) auto
  then show ?thesis using assms by (simp add: hasLineOfSight_def Let_def)
qed

lemma hasLineOfSight_blocked_up:
  assumes "y2 < k" "k \<le> y1" "canMove m x k 0 (- 1) \<noteq> Inr True"
  shows "hasLineOfSight m x y1 x y2 \<noteq> Returns True"
proof -
  have "\<exists>j. 0 < j \<and> j \<le> y1 - y2 \<and> canMove m x (y2 - (- 1) * j) 0 (- 1) \<noteq> Inr True"
    using assms by (intro exI[of _ "k - y2"]) auto
  then have "los_loop m x y2 0 (y1 - y2) (- 1) (- 1) x (y2 - (- 1) * (y1 - y2)) (- (y1 - y2)) \<noteq> Returns True"
    using assms by (intro los_col_blocked[where n = "nat (y1 - y2)"]) auto
  then show ?thesis using assms by (simp add: hasLineOfSight_def Let_def)
qed

lemma wall_on_straight_line_blocks:
  assumes "wall_on_straight_line m x1 y1 x2 y2"
  shows "hasLineOfSight m x1 y1 x2 y2 \<noteq> Returns True"
proof -
  consider
    (right) k where "y1 = y2" "x1 \<le> k" "k < x2" "canMove m k y1 1 0 = Inr False"
  | (left) k where "y1 = y2" "x2 < k" "k \<le> x1" "canMove m k y1 (- 1) 0 = Inr False"
  | (down) k where "x1 = x2" "y1 \<le> k" "k < y2" "canMove m x1 k 0 1 = Inr False"
  | (up) k where "x1 = x2" "y2 < k" "k \<le> y1" "canMove m x1 k 0 (- 1) = Inr False"
    using assms unfolding wall_on_straight_line_def by auto
  then show ?thesis
  proof cases
    case right
    then show ?thesis using hasLineOfSight_blocked_right[of x1 k x2 m y1] by simp
  next
    case left
    then show ?thesis using hasLineOfSight_blocked_left[of x2 k x1 m y1] by simp
  next
    case down
    then show ?thesis using hasLineOfSight_blocked_down[of y1 k y2 m x1] by simp
  next
    case up
    then show ?thesis using hasLineOfSight_blocked_up[of y2 k y1 m x1] by simp
  qed
qed

text \<open>
  What \<^verbatim>\<open>update\<close> leaves visible: cells of the current window, and in the permanent mode
  the cells that were in \<^verbatim>\<open>permanentCells\<close> before. A wall on the straight line does block
  the sight within the viewer's row or column.
\<close>

lemma update_visible_window_or_history:
  assumes "update vs viewerX viewerY m = Returns (visible, vs')"
    and "cache_ok vs m"
    and "isCellVisible vs' x y"
  shows "(max \<bar>x - viewerX\<bar> \<bar>y - viewerY\<bar> \<le> viewRange vs
          \<and> hasLineOfSight m viewerX viewerY x y = Returns True
          \<and> \<not> wall_on_straight_line m viewerX viewerY x y)
         \<or> (mode vs = ''permanent'' \<and> (x, y) \<in> set (permanentCells vs))"
proof -
  from update_cases[OF assms(1)] obtain newVisible vs1 where
    c: "calculateVisibleArea vs viewerX viewerY m = Returns (newVisible, vs1)"
    and p: "mode vs1 = ''permanent'' \<Longrightarrow>
           visible = set_add_all (set_add_all newVisible (permanentCells vs1)) newVisible
           \<and> vs' = vs1\<lparr>visibleCells := visible,
                       exploredCells := set_add_all newVisible (exploredCells vs1),
                       permanentCells := set_add_all newVisible (permanentCells vs1)\<rparr>"
    and i: "mode vs1 \<noteq> ''permanent'' \<Longrightarrow> visible = newVisible
           \<and> vs' = vs1\<lparr>visibleCells := newVisible, exploredCells := set_add_all newVisible []\<rparr>"
    by blast
  note f = calculateVisibleArea_fields[OF c]
  have r: "set newVisible = visibleWindow m viewerX viewerY (viewRange vs)"
    using calculateVisibleArea_result[OF c assms(2)] by auto
  have w: "max \<bar>x - viewerX\<bar> \<bar>y - viewerY\<bar> \<le> viewRange vs
           \<and> hasLineOfSight m viewerX viewerY x y = Returns True
           \<and> \<not> wall_on_straight_line m viewerX viewerY x y"
    if "(x, y) \<in> visibleWindow m viewerX viewerY (viewRange vs)"
    using that wall_on_straight_line_blocks[of m viewerX viewerY x y]
    by (auto simp: visibleWindow_def)
  show ?thesis
  proof (cases "mode vs = ''permanent''")
    case True
    then have "(x, y) \<in> set newVisible \<union> set (permanentCells vs)"
      using p f assms(3) by (auto simp: isCellVisible_def)
    then show ?thesis using True r w by auto
  next
    case False
    then have "(x, y) \<in> set newVisible" using i f assms(3) by (auto simp: isCellVisible_def)
    then show ?thesis using r w by auto
  qed
qed

section \<open>Facts about the game loop\<close>

lemma movePlayer_rejected:
  assumes "rejected g dx dy"
  shows "movePlayer g now dx dy = Returns (False, g, [])"
  using assms unfolding rejected_def movePlayer_def by (auto simp: Let_def)

lemma movePlayer_False_unchanged:
  assumes "movePlayer g now dx dy = Returns (False, g', evs)"
  shows "g' = g \<and> evs = [] \<and> rejected g dx dy"
  using assms unfolding rejected_def movePlayer_def
  by (auto simp: Let_def bindR_Returns split: if_splits sum.splits prod.splits)

lemma explore_cell_pair:
  "explore_cell n c (ex, evs) =
     (if c \<notin> set ex then
        (ex @ [c], evs @ [OnCellExplored (fst c) (snd c) (length (ex @ [c])) (n * n)])
      else (ex, evs))"
  by (simp add: explore_cell_def)

lemma fold_explore_cell:
  "fold (explore_cell n) cs (ex, evs) = (ex', evs') \<Longrightarrow>
     set ex \<subseteq> set ex' \<and> (\<exists>new. evs' = evs @ new \<and> list_all is_explored_event new)"
proof (induction cs arbitrary: ex evs)
  case Nil
  then show ?case by simp
next
  case (Cons c cs)
  show ?case
  proof (cases "c \<in> set ex")
    case True
    then show ?thesis using Cons by (simp add: explore_cell_pair)
  next
    case False
    then have "fold (explore_cell n) cs (ex @ [c], evs @ [OnCellExplored (fst c) (snd c) (length (ex @ [c])) (n * n)]) = (ex', evs')"
      using Cons.prems by (simp add: explore_cell_pair)
    from Cons.IH[OF this] show ?thesis by (auto simp: is_explored_event_def)
  qed
qed

lemma updateVisibility_result:
  assumes "updateVisibility g = Returns (g', evs)"
  shows "set (gameExploredCells g) \<subseteq> set (gameExploredCells g') \<and> list_all is_explored_event evs
         \<and> player g' = player g \<and> state g' = state g \<and> maze g' = maze g \<and> config g' = config g
         \<and> visitedCells g' = visitedCells g"
proof -
  from assms obtain returned vs' where
    g': "(case fold (explore_cell (mazeSize (config g))) (getVisibleCells vs') (gameExploredCells g, []) of
           (explored', evs) \<Rightarrow> Returns (g\<lparr>viewSystem := vs', gameExploredCells := explored'\<rparr>, evs))
         = Returns (g', evs)"
    unfolding updateVisibility_def bindR_Returns by (auto simp: Let_def)
  obtain ex' evs' where f: "fold (explore_cell (mazeSize (config g))) (getVisibleCells vs') (gameExploredCells g, []) = (ex', evs')"
    by (cases "fold (explore_cell (mazeSize (config g))) (getVisibleCells vs') (gameExploredCells g, [])")
  from fold_explore_cell[OF f] g' f show ?thesis by auto
qed

lemma bindR_cong_Returns:
  "(\<And>v. r = Returns v \<Longrightarrow> f v = f' v) \<Longrightarrow> bindR r f = bindR r f'"
  by (auto simp: bindR_def split: option.splits sum.splits)

lemma movePlayer_accept_unfold:
  assumes "\<not> rejected g dx dy"
    and "canMove (maze g) (playerX (player g)) (playerY (player g)) dx dy = Inr True"
  shows "movePlayer g now dx dy =
     bindR (updateVisibility (committed g dx dy)) (\<lambda>(g2, evs1).
       if (playerX (player g) + dx, playerY (player g) + dy) = endc (maze g) then
         Returns (True, fst (victory g2 now), evs1 @ [move_event g dx dy] @ snd (victory g2 now))
       else Returns (True, g2, evs1 @ [move_event g dx dy]))"
proof -
  have A: "movePlayer g now dx dy =
     bindR (updateVisibility (committed g dx dy)) (\<lambda>(g2, evs1).
        let evs2 = evs1 @ [OnMove (prevX (player g2), prevY (player g2))
                             (playerX (player g) + dx, playerY (player g) + dy) (moves (state g2))]
        in if playerX (player g) + dx = fst (endc (maze g2)) \<and> playerY (player g) + dy = snd (endc (maze g2)) then
             (case victory g2 now of (g3, evs3) \<Rightarrow> Returns (True, g3, evs2 @ evs3))
           else Returns (True, g2, evs2))"
    using assms unfolding rejected_def movePlayer_def committed_def
    by (auto simp: Let_def)
  show ?thesis
    unfolding A
  proof (rule bindR_cong_Returns)
    fix v assume u: "updateVisibility (committed g dx dy) = Returns v"
    obtain g2 evs1 where v: "v = (g2, evs1)" by (cases v)
    note r = updateVisibility_result[OF u[unfolded v]]
    have f: "prevX (player g2) = playerX (player g)" "prevY (player g2) = playerY (player g)"
      "moves (state g2) = moves (state g) + 1" "maze g2 = maze g"
      using r by (auto simp: committed_def)
    show "(case v of (g2, evs1) \<Rightarrow>
        let evs2 = evs1 @ [OnMove (prevX (player g2), prevY (player g2))
                             (playerX (player g) + dx, playerY (player g) + dy) (moves (state g2))]
        in if playerX (player g) + dx = fst (endc (maze g2)) \<and> playerY (player g) + dy = snd (endc (maze g2)) then
             (case victory g2 now of (g3, evs3) \<Rightarrow> Returns (True, g3, evs2 @ evs3))
           else Returns (True, g2, evs2)) =
       (case v of (g2, evs1) \<Rightarrow>
       if (playerX (player g) + dx, playerY (player g) + dy) = endc (maze g) then
         Returns (True, fst (victory g2 now), evs1 @ [move_event g dx dy] @ snd (victory g2 now))
       else Returns (True, g2, evs1 @ [move_event g dx dy]))"
      unfolding v using f
      by (simp add: Let_def move_event_def prod_eq_iff split: prod.splits)
  qed
qed

lemma movePlayer_True_not_rejected:
  assumes "movePlayer g now dx dy = Returns (True, g', evs)"
  shows "\<not> rejected g dx dy \<and> canMove (maze g) (playerX (player g)) (playerY (player g)) dx dy = Inr True"
  using assms unfolding rejected_def movePlayer_def
  by (auto simp: Let_def split: if_splits sum.splits)

lemma movePlayer_explored_mono:
  assumes "movePlayer g now dx dy = Returns (ok, g', evs)"
  shows "set (gameExploredCells g) \<subseteq> set (gameExploredCells g')"
proof (cases ok)
  case False
  then show ?thesis using movePlayer_False_unchanged[of g now dx dy g' evs] assms by simp
next
  case True
  then have m: "movePlayer g now dx dy = Returns (True, g', evs)" using assms by simp
  note a = movePlayer_True_not_rejected[OF m]
  from m obtain g2 evs1 where u: "updateVisibility (committed g dx dy) = Returns (g2, evs1)"
    and r: "(if (playerX (player g) + dx, playerY (player g) + dy) = endc (maze g) then
         Returns (True, fst (victory g2 now), evs1 @ [move_event g dx dy] @ snd (victory g2 now))
       else Returns (True, g2, evs1 @ [move_event g dx dy])) = Returns (True, g', evs)"
    unfolding movePlayer_accept_unfold[OF a[THEN conjunct1] a[THEN conjunct2]] bindR_Returns by auto
  have "gameExploredCells g' = gameExploredCells g2"
    using r by (auto simp: victory_def Let_def split: if_splits)
  then show ?thesis using updateVisibility_result[OF u] by (simp add: committed_def)
qed

lemma setViewMode_explored_mono:
  assumes "setViewMode g md = Returns (g', evs)"
  shows "set (gameExploredCells g) \<subseteq> set (gameExploredCells g')"
  using assms unfolding setViewMode_def
  by (auto split: if_splits dest!: updateVisibility_result)

lemma apply_op_explored_mono:
  assumes "apply_op g op = Returns g'"
  shows "set (gameExploredCells g) \<subseteq> set (gameExploredCells g')"
proof (cases op)
  case (MovePlayer now dx dy)
  then obtain ok evs where "movePlayer g now dx dy = Returns (ok, g', evs)"
    using assms by (auto simp: bindR_Returns)
  then show ?thesis by (rule movePlayer_explored_mono)
next
  case (SetViewMode md)
  then obtain evs where "setViewMode g md = Returns (g', evs)"
    using assms by (auto simp: bindR_Returns)
  then show ?thesis by (rule setViewMode_explored_mono)
next
  case UpdateVisibility
  then obtain evs where "updateVisibility g = Returns (g', evs)"
    using assms by (auto simp: bindR_Returns)
  then show ?thesis using updateVisibility_result by blast
qed

lemma run_ops_explored_mono:
  "run_ops g ops = Returns g' \<Longrightarrow> set (gameExploredCells g) \<subseteq> set (gameExploredCells g')"
proof (induction ops arbitrary: g)
  case Nil
  then show ?case by simp
next
  case (Cons op ops)
  then obtain g1 where "apply_op g op = Returns g1" "run_ops g1 ops = Returns g'"
    by (auto simp: bindR_Returns)
  then show ?case using apply_op_explored_mono Cons.IH by blast
qed

lemma updateVisibility_returns:
  assumes "game_ok g"
  shows "\<exists>g' evs. updateVisibility g = Returns (g', evs) \<and> game_ok g'"
proof -
  obtain returned vs' where u: "update (viewSystem g) (playerX (player g)) (playerY (player g)) (maze g) = Returns (returned, vs')"
    using update_returns[of "maze g" "playerY (player g)" "viewSystem g" "playerX (player g)"] assms
    by (auto simp: game_ok_def)
  obtain ex' evs' where f: "fold (explore_cell (mazeSize (config g))) (getVisibleCells vs') (gameExploredCells g, []) = (ex', evs')"
    by (cases "fold (explore_cell (mazeSize (config g))) (getVisibleCells vs') (gameExploredCells g, [])")
  have "updateVisibility g = Returns (g\<lparr>viewSystem := vs', gameExploredCells := ex'\<rparr>, evs')"
    using u f by (simp add: updateVisibility_def bindR_def Let_def)
  moreover have "game_ok (g\<lparr>viewSystem := vs', gameExploredCells := ex'\<rparr>)"
    using assms by (simp add: game_ok_def)
  ultimately show ?thesis by blast
qed

lemma movePlayer_returns:
  assumes "game_ok g"
  shows "\<exists>ok g' evs. movePlayer g now dx dy = Returns (ok, g', evs) \<and> game_ok g'"
proof (cases "rejected g dx dy")
  case True
  then show ?thesis using movePlayer_rejected assms by blast
next
  case False
  then have d: "dx = 1 \<or> dx = - 1 \<or> (dx = 0 \<and> (dy = 1 \<or> dy = - 1))"
    and inb: "0 \<le> playerX (player g) + dx" "playerX (player g) + dx < mazeSize (config g)"
      "0 \<le> playerY (player g) + dy" "playerY (player g) + dy < mazeSize (config g)"
    by (auto simp: rejected_def)
  have r: "rows_ok (maze g)" "0 \<le> playerY (player g)" "playerY (player g) < height (maze g)"
    using assms by (auto simp: game_ok_def)
  have "\<exists>b. canMove (maze g) (playerX (player g)) (playerY (player g)) dx dy = Inr b"
    using d canMove_x_defined[OF r, of dx "playerX (player g)" dy]
      canMove_y_defined[OF r, of dy "playerX (player g)"] by auto
  then have c: "canMove (maze g) (playerX (player g)) (playerY (player g)) dx dy = Inr True"
    using False by (auto simp: rejected_def)
  have "game_ok (committed g dx dy)" using assms inb by (simp add: game_ok_def committed_def)
  then obtain g2 evs1 where u: "updateVisibility (committed g dx dy) = Returns (g2, evs1)" and k: "game_ok g2"
    using updateVisibility_returns by blast
  have "game_ok (fst (victory g2 now))" using k by (simp add: victory_def Let_def game_ok_def)
  then show ?thesis
    unfolding movePlayer_accept_unfold[OF False c] using u k by (auto simp: bindR_def)
qed

lemma setViewMode_returns:
  assumes "game_ok g"
  shows "\<exists>g' evs. setViewMode g md = Returns (g', evs) \<and> game_ok g'"
proof (cases "md \<noteq> ''permanent'' \<and> md \<noteq> ''instant''")
  case True
  then show ?thesis using assms by (simp add: setViewMode_def)
next
  case False
  have "game_ok (g\<lparr>viewSystem := setMode (viewSystem g) md, config := (config g)\<lparr>viewMode := md\<rparr>\<rparr>)"
    using assms by (simp add: game_ok_def)
  from updateVisibility_returns[OF this] show ?thesis using False by (auto simp: setViewMode_def)
qed

lemma apply_op_returns:
  assumes "game_ok g"
  shows "\<exists>g'. apply_op g op = Returns g' \<and> game_ok g'"
proof (cases op)
  case (MovePlayer now dx dy)
  then show ?thesis using movePlayer_returns[OF assms, of now dx dy] by (auto simp: bindR_def)
next
  case (SetViewMode md)
  then show ?thesis using setViewMode_returns[OF assms, of md] by (auto simp: bindR_def)
next
  case UpdateVisibility
  then show ?thesis using updateVisibility_returns[OF assms] by (auto simp: bindR_def)
qed

lemma run_ops_returns:
  "game_ok g \<Longrightarrow> \<exists>g'. run_ops g ops = Returns g' \<and> game_ok g'"
proof (induction ops arbitrary: g)
  case Nil
  then show ?case by simp
next
  case (Cons op ops)
  then obtain g1 where "apply_op g op = Returns g1" "game_ok g1" using apply_op_returns by blast
  then show ?case using Cons.IH[of g1] by (auto simp: bindR_def)
qed


section \<open>Facts about the generator and the path search\<close>

lemma init_frame:
  assumes "width m1 = width m2" "height m1 = height m2"
  shows "(\<exists>e. init m1 = Inl e \<and> init m2 = Inl e)
       \<or> (\<exists>cs ws. init m1 = Inr (m1\<lparr>cells := cs, walls := ws\<rparr>)
                \<and> init m2 = Inr (m2\<lparr>cells := cs, walls := ws\<rparr>))"
  using assms unfolding init_def setBoundaryWalls_def bindE_def
  by (auto split: sum.splits)

lemma createPathToEnd_frame:
  "createPathToEnd (m\<lparr>path := p\<rparr>) = bindR (createPathToEnd m) (\<lambda>m'. Returns (m'\<lparr>path := p\<rparr>))"
  unfolding createPathToEnd_def bindR_def
  by (auto split: option.splits sum.splits)

lemma ensurePathExists_frame:
  "ensurePathExists (m\<lparr>path := p\<rparr>) = bindR (ensurePathExists m) (\<lambda>m'. Returns (m'\<lparr>path := p\<rparr>))"
  unfolding ensurePathExists_def createPathToEnd_frame
  by (auto simp: bindR_def split: option.splits sum.splits)

lemma calculatePath_frame:
  "calculatePath (m\<lparr>path := p\<rparr>) = calculatePath m"
  unfolding calculatePath_def bindR_def
  by (auto split: option.splits sum.splits)

lemma calculatePath_after_ensure:
  "bindR (bindR (ensurePathExists m) (\<lambda>m'. Returns (m'\<lparr>path := p\<rparr>))) (\<lambda>m2. bindR (calculatePath m2) f)
   = bindR (ensurePathExists m) (\<lambda>m2. bindR (calculatePath m2) f)"
  by (auto simp: bindR_def calculatePath_frame split: option.splits sum.splits)

lemma generate_tail_frame:
  assumes "width m1 = width m2" "height m1 = height m2"
  shows "bindR (ensurePathExists (m1\<lparr>start := st, endc := e, cells := cs2, walls := ws2\<rparr>))
           (\<lambda>m. bindR (calculatePath m) f)
       = bindR (ensurePathExists (m2\<lparr>start := st, endc := e, cells := cs2, walls := ws2\<rparr>))
           (\<lambda>m. bindR (calculatePath m) f)"
proof -
  have "m1\<lparr>start := st, endc := e, cells := cs2, walls := ws2\<rparr>
        = (m2\<lparr>start := st, endc := e, cells := cs2, walls := ws2\<rparr>)\<lparr>path := path m1\<rparr>"
    using assms by simp
  then show ?thesis
    by (simp only: ensurePathExists_frame calculatePath_after_ensure)
qed

lemma generate_frame:
  assumes "width m1 = width m2" "height m1 = height m2"
  shows "generate rnd s m1 = generate rnd s m2"
proof -
  from init_frame[OF assms] consider
    (err) e where "init m1 = Inl e" "init m2 = Inl e"
  | (ok) cs ws where "init m1 = Inr (m1\<lparr>cells := cs, walls := ws\<rparr>)"
      "init m2 = Inr (m2\<lparr>cells := cs, walls := ws\<rparr>)"
    by blast
  then show ?thesis
  proof cases
    case err
    then show ?thesis by (simp add: generate_def)
  next
    case ok
    define n1 where "n1 = m1\<lparr>cells := cs, walls := ws\<rparr>"
    define n2 where "n2 = m2\<lparr>cells := cs, walls := ws\<rparr>"
    have wh: "width n1 = width n2" "height n1 = height n2" "cells n1 = cells n2" "walls n1 = walls n2"
      using assms by (simp_all add: n1_def n2_def)
    note t = generate_tail_frame[OF wh(1,2)]
    show ?thesis
      unfolding generate_def ok n1_def[symmetric] n2_def[symmetric] sum.case
      by (simp only: wh t)
  qed
qed

lemma bindE_Inr: "bindE r f = Inr v \<longleftrightarrow> (\<exists>u. r = Inr u \<and> f u = Inr v)"
  by (auto simp: bindE_def split: sum.splits)

lemma set2_rows:
  assumes "has_rows h a" "0 \<le> r" "r < h"
  shows "\<exists>a'. set2 a r c v = Inr a' \<and> has_rows h a'
     \<and> (\<forall>r' c'. read2 a' r' c' = (if r' = r \<and> c' = c then Inr (Some v) else read2 a r' c'))"
  using assms by (auto simp: set2_def has_rows_def read2_def split: option.splits)

lemma seen_read2: "seen visited c \<longleftrightarrow> read2 visited (snd c) (fst c) = Inr (Some True)"
  by (cases "visited (snd c)"; cases "the (visited (snd c)) (fst c)")
     (auto simp: seen_def truthy_at_def read2_def)

lemma truthy_at_rows:
  assumes "has_rows h a" "0 \<le> r" "r < h"
  shows "truthy_at a r c = Inr (read2 a r c = Inr (Some True))"
  using assms by (auto simp: has_rows_def truthy_at_def read2_def split: option.splits)

lemma canMove_direction_defined:
  assumes "rows_ok m" "in_grid m u" "d \<in> set bfs_directions"
  shows "\<exists>b. canMoveW (walls m) (fst u) (snd u) (fst d) (snd d) = Inr b"
proof -
  have y: "0 \<le> snd u" "snd u < height m" using assms(2) by (auto simp: in_grid_def)
  from assms(3) consider "fst d = 1 \<or> fst d = - 1" | "fst d = 0 \<and> (snd d = 1 \<or> snd d = - 1)"
    by (auto simp: bfs_directions_def)
  then show ?thesis
  proof cases
    case 1
    then show ?thesis using canMove_x_defined[OF assms(1) y, of "fst d" "fst u" "snd d"]
      by (simp add: canMove_def)
  next
    case 2
    then show ?thesis using canMove_y_defined[OF assms(1) y, of "snd d" "fst u"]
      by (auto simp: canMove_def)
  qed
qed

lemma bfs_takes_spec:
  assumes "rows_ok m" "in_grid m u" "has_rows (height m) visited" "d \<in> set bfs_directions"
  shows "bfs_takes (width m) (height m) (walls m) visited u d =
     Inr (in_grid m (fst u + fst d, snd u + snd d)
          \<and> canMove m (fst u) (snd u) (fst d) (snd d) = Inr True
          \<and> \<not> seen visited (fst u + fst d, snd u + snd d))"
proof (cases "in_grid m (fst u + fst d, snd u + snd d)")
  case False
  then show ?thesis by (auto simp: bfs_takes_def in_grid_def Let_def)
next
  case True
  obtain b where b: "canMoveW (walls m) (fst u) (snd u) (fst d) (snd d) = Inr b"
    using canMove_direction_defined[OF assms(1,2,4)] by blast
  have t: "truthy_at visited (snd u + snd d) (fst u + fst d)
           = Inr (seen visited (fst u + fst d, snd u + snd d))"
    using truthy_at_rows[OF assms(3), of "snd u + snd d" "fst u + fst d"] True
    by (simp add: seen_read2 in_grid_def)
  show ?thesis using True b t
    by (auto simp: bfs_takes_def in_grid_def Let_def bindE_def canMove_def)
qed

lemma seen_set2:
  assumes "has_rows h visited" "0 \<le> snd c" "snd c < h"
    and "set2 visited (snd c) (fst c) True = Inr visited'"
  shows "seen visited' c' \<longleftrightarrow> c' = c \<or> seen visited c'"
  using set2_rows[OF assms(1-3), of "fst c" True] assms(4)
  by (auto simp: seen_read2 prod_eq_iff)

lemma path_neighbors_spec:
  assumes "rows_ok m" "in_grid m u"
  shows "set dirs \<subseteq> set bfs_directions \<Longrightarrow> has_rows (height m) visited \<Longrightarrow>
     has_rows (height m) parent \<Longrightarrow>
     \<exists>visited' parent' new.
       path_neighbors (width m) (height m) (walls m) u dirs (visited, parent, queue)
         = Inr (visited', parent', queue @ new)
       \<and> has_rows (height m) visited' \<and> has_rows (height m) parent'
       \<and> (\<forall>c. seen visited' c \<longleftrightarrow> seen visited c \<or> c \<in> set new)
       \<and> distinct new
       \<and> (\<forall>c \<in> set new. \<not> seen visited c \<and> in_grid m c \<and> valid_step m u c
              \<and> parent_of parent' c = Inr (Some (Some u)))
       \<and> (\<forall>c. c \<notin> set new \<longrightarrow> parent_of parent' c = parent_of parent c)
       \<and> (\<forall>d \<in> set dirs. in_grid m (fst u + fst d, snd u + snd d)
              \<and> canMove m (fst u) (snd u) (fst d) (snd d) = Inr True
              \<longrightarrow> seen visited' (fst u + fst d, snd u + snd d))"
proof (induction dirs arbitrary: visited parent queue)
  case Nil
  show ?case
    by (rule exI[of _ visited], rule exI[of _ parent], rule exI[of _ "[]"]) (use Nil in simp)
next
  case (Cons d dirs)
  define b where "b = (fst u + fst d, snd u + snd d)"
  define take where "take \<longleftrightarrow> in_grid m b \<and> canMove m (fst u) (snd u) (fst d) (snd d) = Inr True
          \<and> \<not> seen visited b"
  have d: "d \<in> set bfs_directions" and ds: "set dirs \<subseteq> set bfs_directions" using Cons.prems by auto
  have bt: "bfs_takes (width m) (height m) (walls m) visited u d = Inr take"
    using bfs_takes_spec[OF assms Cons.prems(2) d] by (simp add: take_def b_def)
  show ?case
  proof (cases take)
    case False
    from Cons.IH[OF ds Cons.prems(2,3), of queue] obtain visited' parent' new where
      r: "path_neighbors (width m) (height m) (walls m) u dirs (visited, parent, queue)
         = Inr (visited', parent', queue @ new)"
      and p: "has_rows (height m) visited'" "has_rows (height m) parent'"
       "\<forall>c. seen visited' c \<longleftrightarrow> seen visited c \<or> c \<in> set new"
       "distinct new"
       "\<forall>c \<in> set new. \<not> seen visited c \<and> in_grid m c \<and> valid_step m u c
              \<and> parent_of parent' c = Inr (Some (Some u))"
       "\<forall>c. c \<notin> set new \<longrightarrow> parent_of parent' c = parent_of parent c"
       "\<forall>d \<in> set dirs. in_grid m (fst u + fst d, snd u + snd d)
              \<and> canMove m (fst u) (snd u) (fst d) (snd d) = Inr True
              \<longrightarrow> seen visited' (fst u + fst d, snd u + snd d)"
      by blast
    have e: "path_neighbors (width m) (height m) (walls m) u (d # dirs) (visited, parent, queue)
         = Inr (visited', parent', queue @ new)"
      using bt False r by (simp add: bindE_def)
    have hd: "in_grid m (fst u + fst d, snd u + snd d)
              \<and> canMove m (fst u) (snd u) (fst d) (snd d) = Inr True
              \<longrightarrow> seen visited' (fst u + fst d, snd u + snd d)"
      using False p(3) by (auto simp: take_def b_def)
    show ?thesis
      by (rule exI[of _ visited'], rule exI[of _ parent'], rule exI[of _ new])
         (use e p hd in auto)
  next
    case True
    then have bg: "in_grid m b" "canMove m (fst u) (snd u) (fst d) (snd d) = Inr True" "\<not> seen visited b"
      by (auto simp: take_def)
    have brow: "0 \<le> snd b" "snd b < height m" using bg(1) by (auto simp: in_grid_def)
    obtain visited1 where v1: "set2 visited (snd b) (fst b) True = Inr visited1"
      and hv1: "has_rows (height m) visited1"
      using set2_rows[OF Cons.prems(2) brow, of "fst b" True] by blast
    obtain parent1 where p1: "set2 parent (snd b) (fst b) (Some u) = Inr parent1"
      and hp1: "has_rows (height m) parent1"
      and rp1: "\<forall>r' c'. read2 parent1 r' c' = (if r' = snd b \<and> c' = fst b then Inr (Some (Some u)) else read2 parent r' c')"
      using set2_rows[OF Cons.prems(3) brow, of "fst b" "Some u"] by blast
    have s1: "seen visited1 c \<longleftrightarrow> c = b \<or> seen visited c" for c
      using seen_set2[OF Cons.prems(2) brow v1] by simp
    from Cons.IH[OF ds hv1 hp1, of "queue @ [b]"] obtain visited' parent' new where
      r: "path_neighbors (width m) (height m) (walls m) u dirs (visited1, parent1, queue @ [b])
         = Inr (visited', parent', (queue @ [b]) @ new)"
      and p: "has_rows (height m) visited'" "has_rows (height m) parent'"
       "\<forall>c. seen visited' c \<longleftrightarrow> seen visited1 c \<or> c \<in> set new"
       "distinct new"
       "\<forall>c \<in> set new. \<not> seen visited1 c \<and> in_grid m c \<and> valid_step m u c
              \<and> parent_of parent' c = Inr (Some (Some u))"
       "\<forall>c. c \<notin> set new \<longrightarrow> parent_of parent' c = parent_of parent1 c"
       "\<forall>d \<in> set dirs. in_grid m (fst u + fst d, snd u + snd d)
              \<and> canMove m (fst u) (snd u) (fst d) (snd d) = Inr True
              \<longrightarrow> seen visited' (fst u + fst d, snd u + snd d)"
      by blast
    have e: "path_neighbors (width m) (height m) (walls m) u (d # dirs) (visited, parent, queue)
         = Inr (visited', parent', queue @ (b # new))"
      using bt True r v1 p1 by (simp add: bindE_def b_def)
    have bnew: "b \<notin> set new" using p(5) s1 by auto
    have vs: "valid_step m u b" using d bg(2) by (auto simp: valid_step_def b_def)
    have pb: "parent_of parent' b = Inr (Some (Some u))"
      using p(6) bnew rp1 by (simp add: parent_of_def)
    have po: "parent_of parent' c = parent_of parent c" if "c \<notin> set (b # new)" for c
      using that p(6) rp1 by (auto simp: parent_of_def prod_eq_iff)
    show ?thesis
    proof (rule exI[of _ visited'], rule exI[of _ parent'], rule exI[of _ "b # new"], intro conjI)
      show "path_neighbors (width m) (height m) (walls m) u (d # dirs) (visited, parent, queue)
         = Inr (visited', parent', queue @ b # new)" by (rule e)
      show "has_rows (height m) visited'" "has_rows (height m) parent'" by (rule p)+
      show "\<forall>c. seen visited' c \<longleftrightarrow> seen visited c \<or> c \<in> set (b # new)"
        using p(3) s1 by auto
      show "distinct (b # new)" using p(4) bnew by simp
      show "\<forall>c \<in> set (b # new). \<not> seen visited c \<and> in_grid m c \<and> valid_step m u c
              \<and> parent_of parent' c = Inr (Some (Some u))"
        using p(5) s1 bg vs pb by auto
      show "\<forall>c. c \<notin> set (b # new) \<longrightarrow> parent_of parent' c = parent_of parent c"
        using po by blast
      show "\<forall>d \<in> set (d # dirs). in_grid m (fst u + fst d, snd u + snd d)
              \<and> canMove m (fst u) (snd u) (fst d) (snd d) = Inr True
              \<longrightarrow> seen visited' (fst u + fst d, snd u + snd d)"
        using p(7) p(3) s1 by (auto simp: b_def)
    qed
  qed
qed

lemma reach_in_grid: "reach m n c \<Longrightarrow> in_grid m c"
  by (induction rule: reach.induct) auto

lemma reach_dist: "reach m n c \<Longrightarrow> reach m (dist m c) c"
  unfolding dist_def by (rule LeastI)

lemma dist_le: "reach m n c \<Longrightarrow> dist m c \<le> n"
  unfolding dist_def by (rule Least_le)

lemma dist_step:
  assumes "reach m n a" "valid_step m a b" "in_grid m b"
  shows "dist m b \<le> Suc (dist m a)"
  using dist_le[OF reach_step[OF reach_dist[OF assms(1)] assms(2,3)]] .

lemma reach_zero: "reach m 0 c \<Longrightarrow> c = start m"
  by (cases rule: reach.cases) auto

lemma dist_start: "in_grid m (start m) \<Longrightarrow> dist m (start m) = 0"
  using dist_le[OF reach_start] by simp

lemma dist_pred:
  assumes "reach m n c" "dist m c = Suc k"
  shows "\<exists>p. reach m k p \<and> dist m p = k \<and> valid_step m p c"
proof -
  have "reach m (Suc k) c" using reach_dist[OF assms(1)] assms(2) by simp
  then obtain a where a: "reach m k a" "valid_step m a c" "in_grid m c"
    by (cases rule: reach.cases) auto
  have "dist m a \<le> k" using dist_le[OF a(1)] .
  moreover have "Suc k \<le> Suc (dist m a)" using dist_step[OF a] assms(2) by simp
  ultimately have "dist m a = k" by simp
  then show ?thesis using a by blast
qed

lemma reach_along_path:
  "reach m n a \<Longrightarrow> is_path m (a # rest) \<Longrightarrow> reach m (n + length rest) (last (a # rest))"
proof (induction rest arbitrary: n a)
  case Nil
  then show ?case by simp
next
  case (Cons b rest)
  then have s: "valid_step m a b" and p: "is_path m (b # rest)" by auto
  have "in_grid m b" using p by (cases rest) auto
  then have "reach m (Suc n) b" using Cons.prems(1) s by (rule_tac reach_step)
  from Cons.IH[OF this p] show ?case by simp
qed

lemma is_path_reach:
  assumes "is_path m p" "hd p = start m"
  shows "reach m (length p - 1) (last p)"
proof -
  obtain a rest where p: "p = a # rest" using assms(1) by (cases p) auto
  have "in_grid m a" using assms(1) p by (cases rest) auto
  then have "reach m 0 a" using assms(2) p reach_start by auto
  from reach_along_path[OF this assms(1)[unfolded p]] show ?thesis using p by simp
qed

lemma is_path_snoc:
  "is_path m xs \<Longrightarrow> valid_step m (last xs) c \<Longrightarrow> in_grid m c \<Longrightarrow> is_path m (xs @ [c])"
proof (induction xs rule: is_path.induct)
  case (1 m)
  then show ?case by simp
next
  case (2 m a)
  then show ?case by simp
next
  case (3 m a b rest)
  then show ?case by simp
qed

lemma tree_ok_parent:
  assumes "tree_ok m visited parent" "seen visited c" "c \<noteq> start m"
  shows "\<exists>p. parent_of parent c = Inr (Some (Some p)) \<and> seen visited p
                \<and> valid_step m p c \<and> dist m c = Suc (dist m p)"
  using assms unfolding tree_ok_def by blast

lemma tree_ok_seen:
  assumes "tree_ok m visited parent" "seen visited c"
  shows "in_grid m c" "\<exists>n. reach m n c"
  using assms unfolding tree_ok_def by blast+

lemma tree_ok_start:
  assumes "tree_ok m visited parent"
  shows "seen visited (start m)" "parent_of parent (start m) = Inr (Some None)" "in_grid m (start m)"
  using assms unfolding tree_ok_def by blast+

lemma buildPath_None: "buildPath parent None acc = Returns acc"
  by (subst buildPath.simps) simp

lemma buildPath_Some:
  "buildPath parent (Some c) acc =
     (case parent_of parent c of
        Inl err \<Rightarrow> Throws err
      | Inr None \<Rightarrow> Throws TypeError
      | Inr (Some next) \<Rightarrow> buildPath parent next (c # acc))"
  by (subst buildPath.simps) (simp add: parent_of_def)

lemma buildPath_tree:
  assumes "tree_ok m visited parent"
  shows "dist m c = n \<Longrightarrow> seen visited c \<Longrightarrow>
     \<exists>chain. buildPath parent (Some c) acc = Returns (chain @ acc)
        \<and> is_path m chain \<and> hd chain = start m \<and> last chain = c \<and> length chain = Suc n"
proof (induction n arbitrary: c acc)
  case 0
  have "c = start m"
  proof (rule ccontr)
    assume "c \<noteq> start m"
    then obtain p where "dist m c = Suc (dist m p)" using tree_ok_parent[OF assms 0(2)] by blast
    then show False using 0 by simp
  qed
  moreover have "parent_of parent (start m) = Inr (Some None)" "in_grid m (start m)"
    using tree_ok_start[OF assms] by auto
  ultimately have "buildPath parent (Some c) acc = Returns ([c] @ acc)" "is_path m [c]"
    by (auto simp: buildPath_Some buildPath_None)
  then show ?case using \<open>c = start m\<close> 0 by (intro exI[of _ "[c]"]) simp
next
  case (Suc n)
  have ne: "c \<noteq> start m"
    using Suc.prems dist_start[OF tree_ok_start(3)[OF assms]] by auto
  then obtain p where p: "parent_of parent c = Inr (Some (Some p))" "seen visited p"
      "valid_step m p c" "dist m c = Suc (dist m p)"
    using tree_ok_parent[OF assms Suc.prems(2)] by blast
  have g: "in_grid m c" using tree_ok_seen[OF assms Suc.prems(2)] by simp
  from Suc.IH[OF _ p(2), of "c # acc"] p(4) Suc.prems obtain chain where
    ch: "buildPath parent (Some p) (c # acc) = Returns (chain @ c # acc)"
      "is_path m chain" "hd chain = start m" "last chain = p" "length chain = Suc n"
    by auto
  have "buildPath parent (Some c) acc = Returns ((chain @ [c]) @ acc)"
    using p(1) ch(1) by (simp add: buildPath_Some)
  moreover have "is_path m (chain @ [c])" using is_path_snoc[OF ch(2)] ch(4) p(3) g by simp
  moreover have "hd (chain @ [c]) = start m" using ch(3,5) by (cases chain) auto
  ultimately show ?case using ch(5) by (intro exI[of _ "chain @ [c]"]) simp
qed

lemma finite_grid: "finite {c. in_grid m c}"
proof -
  have "{c. in_grid m c} \<subseteq> {0 ..< width m} \<times> {0 ..< height m}"
    by (auto simp: in_grid_def)
  then show ?thesis by (rule finite_subset) simp
qed

lemma sorted_map_const: "(\<forall>x \<in> set xs. f x = (k::nat)) \<Longrightarrow> sorted (map f xs)"
  by (induction xs) auto

lemma sorted_map_append:
  "sorted (map f xs) \<Longrightarrow> sorted (map f ys) \<Longrightarrow> (\<forall>x \<in> set xs. \<forall>y \<in> set ys. (f x :: nat) \<le> f y)
   \<Longrightarrow> sorted (map f (xs @ ys))"
  by (simp add: sorted_append)

lemma bfs_step:
  assumes rows: "rows_ok m"
    and inv: "bfs_inv m visited parent (u # rest)"
    and ne: "u \<noteq> endc m"
  shows "\<exists>visited' parent' new.
     path_neighbors (width m) (height m) (walls m) u bfs_directions (visited, parent, rest)
       = Inr (visited', parent', rest @ new)
     \<and> bfs_inv m visited' parent' (rest @ new)
     \<and> card {c. in_grid m c \<and> \<not> seen visited' c} + length new
         = card {c. in_grid m c \<and> \<not> seen visited c}"
proof -
  have hv: "has_rows (height m) visited" and hp: "has_rows (height m) parent"
    and tr: "tree_ok m visited parent"
    and qs: "\<forall>c \<in> set (u # rest). seen visited c"
    and so: "sorted (map (dist m) (u # rest))"
    and bd: "\<forall>c \<in> set (u # rest). dist m c \<le> Suc (dist m u)"
    and fr: "\<forall>c n. reach m n c \<and> dist m c \<le> dist m u \<longrightarrow> seen visited c"
    and cl: "\<forall>c. seen visited c \<and> c \<notin> set (u # rest) \<longrightarrow>
           c \<noteq> endc m \<and> (\<forall>b. valid_step m c b \<and> in_grid m b \<longrightarrow> seen visited b)"
    using inv unfolding bfs_inv_def by auto
  have su: "seen visited u" using qs by simp
  have gu: "in_grid m u" and ru: "\<exists>n. reach m n u" using tree_ok_seen[OF tr su] by auto
  then obtain nu where nu: "reach m nu u" by blast
  from path_neighbors_spec[OF rows gu subset_refl hv hp, of rest]
  obtain visited' parent' new where
    r: "path_neighbors (width m) (height m) (walls m) u bfs_directions (visited, parent, rest)
         = Inr (visited', parent', rest @ new)"
    and hv': "has_rows (height m) visited'" and hp': "has_rows (height m) parent'"
    and sv: "\<forall>c. seen visited' c \<longleftrightarrow> seen visited c \<or> c \<in> set new"
    and dn: "distinct new"
    and nw: "\<forall>c \<in> set new. \<not> seen visited c \<and> in_grid m c \<and> valid_step m u c
              \<and> parent_of parent' c = Inr (Some (Some u))"
    and po: "\<forall>c. c \<notin> set new \<longrightarrow> parent_of parent' c = parent_of parent c"
    and cu: "\<forall>d \<in> set bfs_directions. in_grid m (fst u + fst d, snd u + snd d)
              \<and> canMove m (fst u) (snd u) (fst d) (snd d) = Inr True
              \<longrightarrow> seen visited' (fst u + fst d, snd u + snd d)"
    by blast
  have sv': "seen visited' c \<longleftrightarrow> seen visited c \<or> c \<in> set new" for c
    using sv by blast
  have po': "parent_of parent' c = parent_of parent c" if "c \<notin> set new" for c
    using po that by blast
  have closed_u: "seen visited' b" if "valid_step m u b" "in_grid m b" for b
    using that cu unfolding valid_step_def by auto
  have new_reach: "reach m (Suc nu) c" if "c \<in> set new" for c
    using that nw nu by (auto intro: reach_step)
  have new_dist: "dist m c = Suc (dist m u)" if "c \<in> set new" for c
  proof -
    have "dist m c \<le> Suc (dist m u)" using dist_step[OF nu] nw that by auto
    moreover have "\<not> dist m c \<le> dist m u"
      using fr new_reach[OF that] nw that by blast
    ultimately show ?thesis by simp
  qed
  have rest_lo: "dist m u \<le> dist m c" if "c \<in> set rest" for c
    using so that by auto
  have rest_hi: "dist m c \<le> Suc (dist m u)" if "c \<in> set rest" for c
    using bd that by auto
  have tr': "tree_ok m visited' parent'"
    unfolding tree_ok_def
  proof (intro conjI allI impI)
    show "seen visited' (start m)" using tree_ok_start(1)[OF tr] sv' by blast
    have "start m \<notin> set new" using tree_ok_start(1)[OF tr] nw by blast
    then show "parent_of parent' (start m) = Inr (Some None)"
      using po'[of "start m"] tree_ok_start(2)[OF tr] by simp
  next
    fix c assume "seen visited' c"
    then show "in_grid m c" using sv'[of c] nw tree_ok_seen(1)[OF tr, of c] by blast
  next
    fix c assume "seen visited' c"
    then show "\<exists>n. reach m n c" using sv'[of c] new_reach[of c] tree_ok_seen(2)[OF tr, of c] by blast
  next
    fix c assume c: "seen visited' c \<and> c \<noteq> start m"
    show "\<exists>p. parent_of parent' c = Inr (Some (Some p)) \<and> seen visited' p
                \<and> valid_step m p c \<and> dist m c = Suc (dist m p)"
    proof (cases "c \<in> set new")
      case True
      then show ?thesis using nw new_dist[of c] su sv'[of u] by (intro exI[of _ u]) blast
    next
      case False
      then have "seen visited c" using c sv'[of c] by blast
      from tree_ok_parent[OF tr this] c obtain p where
        "parent_of parent c = Inr (Some (Some p))" "seen visited p"
        "valid_step m p c" "dist m c = Suc (dist m p)" by blast
      then show ?thesis using po'[OF False] sv'[of p] by (intro exI[of _ p]) simp
    qed
  qed
  have so': "sorted (map (dist m) (rest @ new))"
  proof -
    have "sorted (map (dist m) rest)" using so by simp
    moreover have nd: "\<forall>c \<in> set new. dist m c = Suc (dist m u)" using new_dist by blast
    then have "sorted (map (dist m) new)" by (rule sorted_map_const)
    moreover have "\<forall>x \<in> set rest. \<forall>y \<in> set new. dist m x \<le> dist m y"
      using rest_hi nd by simp
    ultimately show ?thesis by (rule sorted_map_append)
  qed
  have lo': "dist m u \<le> dist m c" if "c \<in> set (rest @ new)" for c
    using that rest_lo[of c] new_dist[of c] by auto
  have hi': "dist m c \<le> Suc (dist m u)" if "c \<in> set (rest @ new)" for c
    using that rest_hi[of c] new_dist[of c] by auto
  have bd': "\<forall>c \<in> set (rest @ new). dist m c \<le> Suc (dist m (hd (rest @ new)))"
  proof
    fix c assume c: "c \<in> set (rest @ new)"
    then have "rest @ new \<noteq> []" by auto
    then have "hd (rest @ new) \<in> set (rest @ new)" by (rule hd_in_set)
    then have "dist m u \<le> dist m (hd (rest @ new))" by (rule lo')
    then show "dist m c \<le> Suc (dist m (hd (rest @ new)))" using hi'[OF c] by simp
  qed
  have cl': "\<forall>c. seen visited' c \<and> c \<notin> set (rest @ new) \<longrightarrow>
           c \<noteq> endc m \<and> (\<forall>b. valid_step m c b \<and> in_grid m b \<longrightarrow> seen visited' b)"
  proof (intro allI impI)
    fix c assume c: "seen visited' c \<and> c \<notin> set (rest @ new)"
    then have sc: "seen visited c" using sv'[of c] by auto
    show "c \<noteq> endc m \<and> (\<forall>b. valid_step m c b \<and> in_grid m b \<longrightarrow> seen visited' b)"
    proof (cases "c = u")
      case True
      then show ?thesis using ne closed_u by simp
    next
      case False
      then have "c \<notin> set (u # rest)" using c by simp
      then show ?thesis using cl sc sv' by blast
    qed
  qed
  have fr': "rest @ new \<noteq> [] \<longrightarrow>
     (\<forall>c n. reach m n c \<and> dist m c \<le> dist m (hd (rest @ new)) \<longrightarrow> seen visited' c)"
  proof (intro impI allI)
    fix c n assume nonempty: "rest @ new \<noteq> []"
      and c: "reach m n c \<and> dist m c \<le> dist m (hd (rest @ new))"
    have hm: "hd (rest @ new) \<in> set (rest @ new)" using nonempty by (rule hd_in_set)
    show "seen visited' c"
    proof (cases "dist m c \<le> dist m u")
      case True
      then show ?thesis using fr c sv'[of c] by blast
    next
      case False
      then have dc: "dist m c = Suc (dist m u)" and dh: "dist m (hd (rest @ new)) = Suc (dist m u)"
        using c hi'[OF hm] by auto
      from dist_pred[OF c[THEN conjunct1] dc] obtain p where
        p: "reach m (dist m u) p" "dist m p = dist m u" "valid_step m p c" by blast
      have sp: "seen visited p" using fr p by (metis order_refl)
      have gc: "in_grid m c" using c reach_in_grid by blast
      have "p \<notin> set (rest @ new)"
      proof
        assume "p \<in> set (rest @ new)"
        then have "dist m (hd (rest @ new)) \<le> dist m p"
          using so' nonempty by (cases "rest @ new") auto
        then show False using dh p(2) by simp
      qed
      then have "seen visited' p \<and> p \<notin> set (rest @ new)" using sp sv'[of p] by auto
      then show ?thesis using cl' p(3) gc by blast
    qed
  qed
  have inv': "bfs_inv m visited' parent' (rest @ new)"
  proof -
    have "\<forall>c \<in> set (rest @ new). seen visited' c" using qs sv' by auto
    then show ?thesis
      unfolding bfs_inv_def using hv' hp' tr' so' bd' fr' cl' by blast
  qed
  have "{c. in_grid m c \<and> \<not> seen visited' c} = {c. in_grid m c \<and> \<not> seen visited c} - set new"
    using sv' by blast
  moreover have "set new \<subseteq> {c. in_grid m c \<and> \<not> seen visited c}" using nw by auto
  moreover have "finite {c. in_grid m c \<and> \<not> seen visited c}"
    using finite_grid[of m] by (rule rev_finite_subset) auto
  ultimately have "card {c. in_grid m c \<and> \<not> seen visited' c}
         = card {c. in_grid m c \<and> \<not> seen visited c} - card (set new)"
    and "card (set new) \<le> card {c. in_grid m c \<and> \<not> seen visited c}"
    by (simp_all add: card_Diff_subset card_mono)
  then have "card {c. in_grid m c \<and> \<not> seen visited' c} + length new
         = card {c. in_grid m c \<and> \<not> seen visited c}"
    using distinct_card[OF dn] by simp
  then show ?thesis using r inv' by blast
qed

lemma bfs_inv_empty_all_seen:
  assumes "bfs_inv m visited parent []"
  shows "reach m n c \<Longrightarrow> seen visited c"
proof (induction rule: reach.induct)
  case reach_start
  have "tree_ok m visited parent" using assms by (simp add: bfs_inv_def)
  then show ?case by (rule tree_ok_start(1))
next
  case (reach_step n a b)
  have "\<forall>c. seen visited c \<and> c \<notin> set [] \<longrightarrow>
           c \<noteq> endc m \<and> (\<forall>b. valid_step m c b \<and> in_grid m b \<longrightarrow> seen visited b)"
    using assms unfolding bfs_inv_def by blast
  then show ?case using reach_step by (metis empty_iff list.set(1))
qed

lemma path_loop_Nil: "path_loop w h ws e visited parent [] = Returns []"
  by (subst path_loop.simps) simp

lemma path_loop_Cons:
  "path_loop w h ws e visited parent (current # rest) =
     (if fst current = fst e \<and> snd current = snd e then buildPath parent (Some current) []
      else
        (case path_neighbors w h ws current bfs_directions (visited, parent, rest) of
           Inl err \<Rightarrow> Throws err
         | Inr (visited1, parent1, queue1) \<Rightarrow> path_loop w h ws e visited1 parent1 queue1))"
  by (subst path_loop.simps) simp

lemma path_loop_correct:
  assumes rows: "rows_ok m" and re: "reach m ne (endc m)"
  shows "card {c. in_grid m c \<and> \<not> seen visited c} + length queue = k \<Longrightarrow>
     bfs_inv m visited parent queue \<Longrightarrow>
     \<exists>sp. path_loop (width m) (height m) (walls m) (endc m) visited parent queue = Returns sp
        \<and> is_path m sp \<and> hd sp = start m \<and> last sp = endc m
        \<and> length sp = Suc (dist m (endc m))"
proof (induction k arbitrary: visited parent queue rule: less_induct)
  case (less k)
  show ?case
  proof (cases queue)
    case Nil
    then have inv0: "bfs_inv m visited parent []" using less.prems by simp
    have "seen visited (endc m)" using bfs_inv_empty_all_seen[OF inv0 re] .
    moreover have "\<forall>c. seen visited c \<and> c \<notin> set [] \<longrightarrow> c \<noteq> endc m"
      using inv0 unfolding bfs_inv_def by blast
    ultimately show ?thesis by (metis empty_iff list.set(1))
  next
    case (Cons u rest)
    then have inv: "bfs_inv m visited parent (u # rest)" using less.prems by simp
    have tr: "tree_ok m visited parent" and su: "seen visited u"
      using inv unfolding bfs_inv_def by auto
    show ?thesis
    proof (cases "u = endc m")
      case True
      from buildPath_tree[OF tr refl su, of "[]"] obtain chain where
        "buildPath parent (Some u) [] = Returns chain" "is_path m chain" "hd chain = start m"
        "last chain = u" "length chain = Suc (dist m u)" by auto
      then show ?thesis using True Cons by (simp add: path_loop_Cons)
    next
      case False
      from bfs_step[OF rows inv False] obtain visited' parent' new where
        r: "path_neighbors (width m) (height m) (walls m) u bfs_directions (visited, parent, rest)
              = Inr (visited', parent', rest @ new)"
        and inv': "bfs_inv m visited' parent' (rest @ new)"
        and cd: "card {c. in_grid m c \<and> \<not> seen visited' c} + length new
                  = card {c. in_grid m c \<and> \<not> seen visited c}"
        by blast
      have lt: "card {c. in_grid m c \<and> \<not> seen visited' c} + length (rest @ new) < k"
        using cd less.prems(1) Cons by simp
      have ne: "\<not> (fst u = fst (endc m) \<and> snd u = snd (endc m))"
        using False by (simp add: prod_eq_iff)
      have "path_loop (width m) (height m) (walls m) (endc m) visited parent queue
            = path_loop (width m) (height m) (walls m) (endc m) visited' parent' (rest @ new)"
        using Cons ne r by (auto simp: path_loop_Cons)
      then show ?thesis using less.IH[OF lt refl inv'] by simp
    qed
  qed
qed

lemma has_rows_filled: "0 \<le> h \<Longrightarrow> has_rows h (filled h v)"
  by (simp add: has_rows_def filled_def)

lemma read2_filled:
  "read2 (filled h (filled w v)) r c =
     (if 0 \<le> r \<and> r < h then Inr (if 0 \<le> c \<and> c < w then Some v else None) else Inl TypeError)"
  by (simp add: read2_def filled_def)

lemma bfs_inv_initial:
  assumes "in_grid m (start m)"
    and "set2 (filled (height m) (filled (width m) False)) (snd (start m)) (fst (start m)) True
          = Inr visited"
  shows "bfs_inv m visited (filled (height m) (filled (width m) None)) [start m]"
proof -
  have b: "0 \<le> snd (start m)" "snd (start m) < height m" "0 \<le> fst (start m)" "fst (start m) < width m"
    using assms(1) by (auto simp: in_grid_def)
  have h0: "has_rows (height m) (filled (height m) (filled (width m) False))"
    using b by (intro has_rows_filled) simp
  have hp: "has_rows (height m) (filled (height m) (filled (width m) (None :: cell option)))"
    using b by (intro has_rows_filled) simp
  from set2_rows[OF h0 b(1,2), of "fst (start m)" True] assms(2)
  have hv: "has_rows (height m) visited"
    and rd: "\<And>r' c'. read2 visited r' c' =
       (if r' = snd (start m) \<and> c' = fst (start m) then Inr (Some True)
        else read2 (filled (height m) (filled (width m) False)) r' c')"
    by auto
  have sn: "seen visited c \<longleftrightarrow> c = start m" for c
    unfolding seen_read2 rd read2_filled by (auto simp: prod_eq_iff)
  have ps: "parent_of (filled (height m) (filled (width m) None)) (start m) = Inr (Some None)"
    using b by (simp add: parent_of_def read2_filled)
  have r0: "reach m 0 (start m)" using assms(1) by (rule reach_start)
  have tr: "tree_ok m visited (filled (height m) (filled (width m) None))"
    unfolding tree_ok_def sn using ps assms(1) r0 by blast
  have d0: "dist m (start m) = 0" using dist_start[OF assms(1)] .
  have fr: "seen visited c" if "reach m n c" "dist m c \<le> dist m (start m)" for c n
  proof -
    have "dist m c = 0" using that(2) d0 by simp
    then have "reach m 0 c" using reach_dist[OF that(1)] by simp
    then show ?thesis using reach_zero sn by blast
  qed
  show ?thesis
    unfolding bfs_inv_def using hv hp tr sn fr by auto
qed

lemma calculatePath_shortest:
  assumes "rows_ok m"
    and "is_path m p" "hd p = start m" "last p = endc m"
  shows "\<exists>sp. calculatePath m = Returns (m\<lparr>path := sp\<rparr>)
           \<and> is_path m sp \<and> hd sp = start m \<and> last sp = endc m
           \<and> length sp \<le> length p"
proof -
  have pne: "p \<noteq> []" using assms(2) by auto
  have gs: "in_grid m (start m)"
  proof (cases p)
    case Nil
    then show ?thesis using pne by simp
  next
    case (Cons a rest)
    then show ?thesis using assms(2,3) by (cases rest) auto
  qed
  then have b: "0 \<le> snd (start m)" "snd (start m) < height m" "0 \<le> fst (start m)" "fst (start m) < width m"
    by (auto simp: in_grid_def)
  have h0: "has_rows (height m) (filled (height m) (filled (width m) False))"
    using b by (intro has_rows_filled) simp
  obtain visited where v: "set2 (filled (height m) (filled (width m) False)) (snd (start m)) (fst (start m)) True
          = Inr visited"
    using set2_rows[OF h0 b(1,2), of "fst (start m)" True] by blast
  note inv = bfs_inv_initial[OF gs v]
  have re: "reach m (length p - 1) (endc m)" using is_path_reach[OF assms(2,3)] assms(4) by simp
  from path_loop_correct[OF assms(1) re refl inv] obtain sp where
    sp: "path_loop (width m) (height m) (walls m) (endc m) visited
           (filled (height m) (filled (width m) None)) [start m] = Returns sp"
      "is_path m sp" "hd sp = start m" "last sp = endc m" "length sp = Suc (dist m (endc m))"
    by blast
  have "dist m (endc m) \<le> length p - 1" using dist_le[OF re] .
  then have "length sp \<le> length p" using sp(5) pne by (cases p) auto
  moreover have "calculatePath m = Returns (m\<lparr>path := sp\<rparr>)"
    using b v sp(1) by (simp add: calculatePath_def bindR_def)
  ultimately show ?thesis using sp by blast
qed

lemma walls_rows_ok: "walls_rows (height m) (walls m) \<Longrightarrow> rows_ok m"
  by (auto simp: walls_rows_def rows_ok_def has_rows_def)

lemma set2_has_rows: "set2 a r c v = Inr a' \<Longrightarrow> has_rows h a \<Longrightarrow> has_rows h a'"
  by (auto simp: set2_def has_rows_def split: option.splits)

lemma setCells_has_rows: "setCells a rcs v = Inr a' \<Longrightarrow> has_rows h a \<Longrightarrow> has_rows h a'"
proof (induction a rcs v rule: setCells.induct)
  case (1 a v)
  then show ?case by simp
next
  case (2 a r c rcs v)
  then show ?case by (auto simp: bindE_Inr dest: set2_has_rows)
qed

lemma init_rows:
  assumes "init m = Inr m1"
  shows "walls_rows (height m1) (walls m1) \<and> width m1 = width m \<and> height m1 = height m"
proof -
  have h: "0 \<le> height m" "0 \<le> width m" using assms by (auto simp: init_def split: if_splits)
  define m0 where "m0 = m\<lparr>cells := filled (height m) (filled (width m) False),
       walls := \<lparr>horizontal = filled (height m + 1) (filled (width m) True),
                 vertical = filled (height m) (filled (width m + 1) True)\<rparr>\<rparr>"
  have s: "setBoundaryWalls m0 = Inr m1" using assms h by (simp add: init_def m0_def)
  have hh: "has_rows (height m + 1) (horizontal (walls m0))" "has_rows (height m) (vertical (walls m0))"
    using h by (simp_all add: m0_def has_rows_filled)
  from s obtain h1 h2 v1 v2 where
    a: "setCells (horizontal (walls m0)) (map (\<lambda>x. (0, x)) [0 .. width m0 - 1]) True = Inr h1"
       "setCells h1 (map (\<lambda>x. (height m0, x)) [0 .. width m0 - 1]) True = Inr h2"
       "setCells (vertical (walls m0)) (map (\<lambda>y. (y, 0)) [0 .. height m0 - 1]) True = Inr v1"
       "setCells v1 (map (\<lambda>y. (y, width m0)) [0 .. height m0 - 1]) True = Inr v2"
       "m1 = m0\<lparr>walls := \<lparr>horizontal = h2, vertical = v2\<rparr>\<rparr>"
    unfolding setBoundaryWalls_def bindE_Inr by auto
  have "has_rows (height m + 1) h2" using setCells_has_rows[OF a(2) setCells_has_rows[OF a(1) hh(1)]] .
  moreover have "has_rows (height m) v2" using setCells_has_rows[OF a(4) setCells_has_rows[OF a(3) hh(2)]] .
  ultimately show ?thesis using a(5) by (simp add: walls_rows_def m0_def)
qed

lemma removeWall_rows: "removeWall ws x y d = Inr ws' \<Longrightarrow> walls_rows h ws \<Longrightarrow> walls_rows h ws'"
  by (cases d) (auto simp: removeWall_def walls_rows_def bindE_Inr dest: set2_has_rows)

lemma carve_rows_aux:
  assumes "carve rnd0 w0 h0 cs0 ws0 stack0 s0 = Some y0"
  shows "\<forall>cs' ws' s'. y0 = Inr (cs', ws', s') \<longrightarrow> walls_rows h0 ws0 \<longrightarrow> walls_rows h0 ws'"
proof (rule carve.raw_induct[where P = "\<lambda>rnd w h cs ws stack s y.
          \<forall>cs' ws' s'. y = Inr (cs', ws', s') \<longrightarrow> walls_rows h ws \<longrightarrow> walls_rows h ws'",
        OF _ assms], goal_cases)
  case (1 carve' rnd w h cs ws stack s y)
  show ?case
  proof (cases stack)
    case Nil
    then show ?thesis using 1(2) by auto
  next
    case (Cons top below)
    obtain x y0 where top: "top = (x, y0)" by (cases top)
    show ?thesis
    proof (cases "getUnvisitedNeighbors w h cs x y0")
      case (Inl e)
      then show ?thesis using 1(2) Cons top by auto
    next
      case (Inr neighbors)
      show ?thesis
      proof (cases "length neighbors > 0")
        case False
        then have "carve' rnd w h cs ws below s = Some y" using 1(2) Cons top Inr by simp
        from 1(1)[OF this] show ?thesis .
      next
        case True
        obtain randomIndex s1 where r: "rnd s (int (length neighbors)) = (randomIndex, s1)"
          by (cases "rnd s (int (length neighbors))")
        show ?thesis
        proof (cases "randomIndex < 0 \<or> randomIndex \<ge> int (length neighbors)")
          case True
          then show ?thesis using 1(2) Cons top Inr \<open>length neighbors > 0\<close> r by auto
        next
          case False
          obtain nx ny d where n: "neighbors ! nat randomIndex = (nx, ny, d)"
            by (cases "neighbors ! nat randomIndex")
          show ?thesis
          proof (cases "removeWall ws x y0 d")
            case (Inl e)
            then show ?thesis using 1(2) Cons top Inr True r False n by auto
          next
            case ws1: (Inr ws1)
            show ?thesis
            proof (cases "set2 cs ny nx True")
              case (Inl e)
              then show ?thesis using 1(2) Cons top Inr True r False n ws1 by auto
            next
              case cs1: (Inr cs1)
              have "carve' rnd w h cs1 ws1 ((nx, ny) # stack) s1 = Some y"
                using 1(2) Cons top Inr True r False n ws1 cs1 by auto
              from 1(1)[OF this] removeWall_rows[OF ws1] show ?thesis by blast
            qed
          qed
        qed
      qed
    qed
  qed
qed

lemma carve_rows:
  "carve rnd w h cs ws stack s = Returns (cs', ws', s') \<Longrightarrow> walls_rows h ws \<Longrightarrow> walls_rows h ws'"
  using carve_rows_aux[of rnd w h cs ws stack s "Inr (cs', ws', s')"] by blast

lemma create_path_rows_aux:
  assumes "create_path e0 cs0 ws0 x0 y0 = Some r0"
  shows "\<forall>cs' ws'. r0 = Inr (cs', ws') \<longrightarrow> walls_rows h ws0 \<longrightarrow> walls_rows h ws'"
proof (rule create_path.raw_induct[where P = "\<lambda>e cs ws x y r.
          \<forall>cs' ws'. r = Inr (cs', ws') \<longrightarrow> walls_rows h ws \<longrightarrow> walls_rows h ws'",
        OF _ assms], goal_cases)
  case (1 create_path' e cs ws x y r)
  show ?case
  proof (cases "x \<noteq> fst e \<or> y \<noteq> snd e")
    case False
    then show ?thesis using 1(2) by auto
  next
    case True
    define stepped where "stepped =
       (if x < fst e then
                 bindE (set2 (vertical ws) y (x + 1) False) (\<lambda>a. Inr (ws\<lparr>vertical := a\<rparr>, x + 1, y))
               else if x > fst e then
                 bindE (set2 (vertical ws) y x False) (\<lambda>a. Inr (ws\<lparr>vertical := a\<rparr>, x - 1, y))
               else if y < snd e then
                 bindE (set2 (horizontal ws) (y + 1) x False) (\<lambda>a. Inr (ws\<lparr>horizontal := a\<rparr>, x, y + 1))
               else if y > snd e then
                 bindE (set2 (horizontal ws) y x False) (\<lambda>a. Inr (ws\<lparr>horizontal := a\<rparr>, x, y - 1))
               else Inr (ws, x, y))"
    have body: "(case stepped of
           Inl err \<Rightarrow> Throws err
         | Inr (ws1, x1, y1) \<Rightarrow>
             (case set2 cs y1 x1 True of
                Inl err \<Rightarrow> Throws err
              | Inr cs1 \<Rightarrow> create_path' e cs1 ws1 x1 y1)) = Some r"
      using 1(2) True unfolding stepped_def by simp
    show ?thesis
    proof (cases stepped)
      case (Inl err)
      then show ?thesis using body by auto
    next
      case (Inr t)
      obtain ws1 x1 y1 where t: "t = (ws1, x1, y1)" by (cases t)
      have w1: "walls_rows h ws \<Longrightarrow> walls_rows h ws1"
        using Inr t
        by (auto simp: stepped_def walls_rows_def bindE_Inr split: if_splits dest: set2_has_rows)
      show ?thesis
      proof (cases "set2 cs y1 x1 True")
        case (Inl err)
        then show ?thesis using body Inr t by auto
      next
        case cs1: (Inr cs1)
        then have "create_path' e cs1 ws1 x1 y1 = Some r" using body Inr t by simp
        from 1(1)[OF this] w1 show ?thesis by blast
      qed
    qed
  qed
qed

lemma ensurePathExists_rows:
  assumes "ensurePathExists m = Returns m'" "walls_rows (height m) (walls m)"
  shows "walls_rows (height m') (walls m') \<and> width m' = width m \<and> height m' = height m
         \<and> start m' = start m \<and> endc m' = endc m"
proof -
  from assms(1) consider "m' = m"
    | cs ws where "create_path (endc m) (cells m) (walls m) (fst (start m)) (snd (start m)) = Returns (cs, ws)"
        "m' = m\<lparr>cells := cs, walls := ws\<rparr>"
    unfolding ensurePathExists_def createPathToEnd_def
    by (auto simp: bindR_Returns split: if_splits sum.splits)
  then show ?thesis
  proof cases
    case 1
    then show ?thesis using assms(2) by simp
  next
    case 2
    then show ?thesis using create_path_rows_aux[OF 2(1), of "height m"] assms(2) by simp
  qed
qed

lemma calculatePath_only_path:
  "calculatePath m = Returns m' \<Longrightarrow> \<exists>sp. m' = m\<lparr>path := sp\<rparr>"
  unfolding calculatePath_def by (auto simp: bindR_Returns split: if_splits sum.splits)

lemma generate_result:
  assumes "generate rnd s m0 = Returns (g, s')"
  shows "\<exists>m2. calculatePath m2 = Returns g \<and> walls_rows (height m2) (walls m2)"
proof -
  from assms obtain m1 where i: "init m0 = Inr m1"
    unfolding generate_def by (auto split: sum.splits)
  note ir = init_rows[OF i]
  obtain startX s1 where r1: "rnd s (width m1) = (startX, s1)" by (cases "rnd s (width m1)")
  obtain startY s2 where r2: "rnd s1 (height m1) = (startY, s2)" by (cases "rnd s1 (height m1)")
  have g1: "bindR (pick_end rnd (width m1) (height m1) startX startY s2) (\<lambda>(e, s3).
               case set2 (cells m1) startY startX True of
                 Inl err \<Rightarrow> Throws err
               | Inr cs1 \<Rightarrow>
                   bindR (carve rnd (width m1) (height m1) cs1 (walls m1) [(startX, startY)] s3)
                     (\<lambda>(cs2, ws2, s4).
                        bindR (ensurePathExists
                                 (m1\<lparr>start := (startX, startY), endc := e, cells := cs2, walls := ws2\<rparr>))
                          (\<lambda>m2. bindR (calculatePath m2) (\<lambda>m3. Returns (m3, s4))))) = Returns (g, s')"
    using assms i r1 r2 unfolding generate_def by simp
  then obtain e s3 where g2: "(case set2 (cells m1) startY startX True of
                 Inl err \<Rightarrow> Throws err
               | Inr cs1 \<Rightarrow>
                   bindR (carve rnd (width m1) (height m1) cs1 (walls m1) [(startX, startY)] s3)
                     (\<lambda>(cs2, ws2, s4).
                        bindR (ensurePathExists
                                 (m1\<lparr>start := (startX, startY), endc := e, cells := cs2, walls := ws2\<rparr>))
                          (\<lambda>m2. bindR (calculatePath m2) (\<lambda>m3. Returns (m3, s4))))) = Returns (g, s')"
    unfolding bindR_Returns by auto
  then obtain cs1 where g3: "bindR (carve rnd (width m1) (height m1) cs1 (walls m1) [(startX, startY)] s3)
                     (\<lambda>(cs2, ws2, s4).
                        bindR (ensurePathExists
                                 (m1\<lparr>start := (startX, startY), endc := e, cells := cs2, walls := ws2\<rparr>))
                          (\<lambda>m2. bindR (calculatePath m2) (\<lambda>m3. Returns (m3, s4)))) = Returns (g, s')"
    by (cases "set2 (cells m1) startY startX True") auto
  then obtain t where
    c0: "carve rnd (width m1) (height m1) cs1 (walls m1) [(startX, startY)] s3 = Returns t"
    and g40: "(case t of (cs2, ws2, s4) \<Rightarrow> bindR (ensurePathExists
                                 (m1\<lparr>start := (startX, startY), endc := e, cells := cs2, walls := ws2\<rparr>))
                          (\<lambda>m2. bindR (calculatePath m2) (\<lambda>m3. Returns (m3, s4)))) = Returns (g, s')"
    unfolding bindR_Returns by blast
  obtain cs2 ws2 s4 where t: "t = (cs2, ws2, s4)" by (cases t)
  have c: "carve rnd (width m1) (height m1) cs1 (walls m1) [(startX, startY)] s3 = Returns (cs2, ws2, s4)"
    using c0 t by simp
  have "bindR (ensurePathExists
                                 (m1\<lparr>start := (startX, startY), endc := e, cells := cs2, walls := ws2\<rparr>))
                          (\<lambda>m2. bindR (calculatePath m2) (\<lambda>m3. Returns (m3, s4))) = Returns (g, s')"
    using g40 t by simp
  then obtain m2 where
    en: "ensurePathExists (m1\<lparr>start := (startX, startY), endc := e, cells := cs2, walls := ws2\<rparr>) = Returns m2"
    and g5: "bindR (calculatePath m2) (\<lambda>m3. Returns (m3, s4)) = Returns (g, s')"
    unfolding bindR_Returns by blast
  have ca: "calculatePath m2 = Returns g"
    using g5 unfolding bindR_Returns by auto
  have "walls_rows (height m1) ws2" using carve_rows[OF c] ir by blast
  then have "walls_rows (height m2) (walls m2)" using ensurePathExists_rows[OF en] by auto
  then show ?thesis using ca by blast
qed

lemma is_path_path_update [simp]: "is_path (m\<lparr>path := sp\<rparr>) p = is_path m p"
  by (induction m p rule: is_path.induct) (auto simp: in_grid_def valid_step_def canMove_def)


section \<open>Facts about initialisation\<close>

lemma generate_shape:
  assumes "generate rnd s m0 = Returns (g, s')"
  shows "walls_rows (height g) (walls g) \<and> width g = width m0 \<and> height g = height m0
         \<and> start g = (fst (rnd s (width m0)), fst (rnd (snd (rnd s (width m0))) (height m0)))
         \<and> 0 \<le> width m0 \<and> 0 \<le> height m0"
proof -
  from assms obtain m1 where i: "init m0 = Inr m1"
    unfolding generate_def by (auto split: sum.splits)
  note ir = init_rows[OF i]
  have nn: "0 \<le> width m0" "0 \<le> height m0" using i by (auto simp: init_def split: if_splits)
  obtain startX s1 where r1: "rnd s (width m1) = (startX, s1)" by (cases "rnd s (width m1)")
  obtain startY s2 where r2: "rnd s1 (height m1) = (startY, s2)" by (cases "rnd s1 (height m1)")
  have g1: "bindR (pick_end rnd (width m1) (height m1) startX startY s2) (\<lambda>(e, s3).
               case set2 (cells m1) startY startX True of
                 Inl err \<Rightarrow> Throws err
               | Inr cs1 \<Rightarrow>
                   bindR (carve rnd (width m1) (height m1) cs1 (walls m1) [(startX, startY)] s3)
                     (\<lambda>(cs2, ws2, s4).
                        bindR (ensurePathExists
                                 (m1\<lparr>start := (startX, startY), endc := e, cells := cs2, walls := ws2\<rparr>))
                          (\<lambda>m2. bindR (calculatePath m2) (\<lambda>m3. Returns (m3, s4))))) = Returns (g, s')"
    using assms i r1 r2 unfolding generate_def by simp
  then obtain e s3 where g2: "(case set2 (cells m1) startY startX True of
                 Inl err \<Rightarrow> Throws err
               | Inr cs1 \<Rightarrow>
                   bindR (carve rnd (width m1) (height m1) cs1 (walls m1) [(startX, startY)] s3)
                     (\<lambda>(cs2, ws2, s4).
                        bindR (ensurePathExists
                                 (m1\<lparr>start := (startX, startY), endc := e, cells := cs2, walls := ws2\<rparr>))
                          (\<lambda>m2. bindR (calculatePath m2) (\<lambda>m3. Returns (m3, s4))))) = Returns (g, s')"
    unfolding bindR_Returns by auto
  then obtain cs1 where g3: "bindR (carve rnd (width m1) (height m1) cs1 (walls m1) [(startX, startY)] s3)
                     (\<lambda>(cs2, ws2, s4).
                        bindR (ensurePathExists
                                 (m1\<lparr>start := (startX, startY), endc := e, cells := cs2, walls := ws2\<rparr>))
                          (\<lambda>m2. bindR (calculatePath m2) (\<lambda>m3. Returns (m3, s4)))) = Returns (g, s')"
    by (cases "set2 (cells m1) startY startX True") auto
  then obtain t where
    c0: "carve rnd (width m1) (height m1) cs1 (walls m1) [(startX, startY)] s3 = Returns t"
    and g40: "(case t of (cs2, ws2, s4) \<Rightarrow> bindR (ensurePathExists
                                 (m1\<lparr>start := (startX, startY), endc := e, cells := cs2, walls := ws2\<rparr>))
                          (\<lambda>m2. bindR (calculatePath m2) (\<lambda>m3. Returns (m3, s4)))) = Returns (g, s')"
    unfolding bindR_Returns by blast
  obtain cs2 ws2 s4 where t: "t = (cs2, ws2, s4)" by (cases t)
  have c: "carve rnd (width m1) (height m1) cs1 (walls m1) [(startX, startY)] s3 = Returns (cs2, ws2, s4)"
    using c0 t by simp
  have "bindR (ensurePathExists
                                 (m1\<lparr>start := (startX, startY), endc := e, cells := cs2, walls := ws2\<rparr>))
                          (\<lambda>m2. bindR (calculatePath m2) (\<lambda>m3. Returns (m3, s4))) = Returns (g, s')"
    using g40 t by simp
  then obtain m2 where
    en: "ensurePathExists (m1\<lparr>start := (startX, startY), endc := e, cells := cs2, walls := ws2\<rparr>) = Returns m2"
    and g5: "bindR (calculatePath m2) (\<lambda>m3. Returns (m3, s4)) = Returns (g, s')"
    unfolding bindR_Returns by blast
  have ca: "calculatePath m2 = Returns g"
    using g5 unfolding bindR_Returns by auto
  have w1: "walls_rows (height m1) ws2" using carve_rows[OF c] ir by blast
  have pre: "walls_rows (height (m1\<lparr>start := (startX, startY), endc := e, cells := cs2, walls := ws2\<rparr>))
               (walls (m1\<lparr>start := (startX, startY), endc := e, cells := cs2, walls := ws2\<rparr>))"
    using w1 by simp
  note er0 = ensurePathExists_rows[OF en pre]
  have er: "walls_rows (height m2) (walls m2)" "width m2 = width m1" "height m2 = height m1"
    "start m2 = (startX, startY)"
    using er0[THEN conjunct1] er0[THEN conjunct2, THEN conjunct1]
      er0[THEN conjunct2, THEN conjunct2, THEN conjunct1]
      er0[THEN conjunct2, THEN conjunct2, THEN conjunct2, THEN conjunct1]
    by simp_all
  from calculatePath_only_path[OF ca] obtain sp where gp: "g = m2\<lparr>path := sp\<rparr>" by blast
  have iw: "width m1 = width m0" "height m1 = height m0" using ir by simp_all
  have "walls_rows (height g) (walls g)" using er(1) gp by simp
  moreover have "width g = width m0" "height g = height m0" using er(2,3) iw gp by simp_all
  moreover have "start g = (fst (rnd s (width m0)), fst (rnd (snd (rnd s (width m0))) (height m0)))"
    using er(4) gp r1 r2 iw by simp
  ultimately show ?thesis using nn by simp
qed

lemma Game_init_ok:
  assumes "Game_init rnd s g0 = Returns (g, s', evs)" and "draws_in_range rnd"
    and "0 < mazeSize (config g0)"
  shows "game_ok g"
proof -
  from assms(1) obtain m0 where n: "new_Maze (mazeSize (config g0)) (mazeSize (config g0)) = Inr m0"
    unfolding Game_init_def by (auto split: sum.splits)
  have wh: "width m0 = mazeSize (config g0)" "height m0 = mazeSize (config g0)"
    using init_rows[OF n[unfolded new_Maze_def]] by (simp_all add: blank_maze_def)
  from assms(1) n obtain t where ge: "generate rnd s m0 = Returns t"
    and r0: "(case t of (m, s1) \<Rightarrow>
            let g1 = g0\<lparr>maze := m,
                       player := \<lparr>playerX = fst (start m), playerY = snd (start m),
                                   prevX = fst (start m), prevY = snd (start m)\<rparr>,
                       gameExploredCells := set_add (start m) [],
                       visitedCells := set_add (start m) [],
                       viewSystem := new_ViewSystem (viewMode (config g0)) 1\<rparr>
            in bindR (updateVisibility g1) (\<lambda>(g2, evs).
                 Returns (g2\<lparr>state := \<lparr>isRunning = False, isPaused = False, isGameOver = False,
                                          isVictory = False, moves = 0, startTime = None,
                                          endTime = None\<rparr>\<rparr>, s1, evs))) = Returns (g, s', evs)"
    unfolding Game_init_def by (auto simp: bindR_Returns)
  obtain m s1 where t: "t = (m, s1)" by (cases t)
  define g1 where "g1 = g0\<lparr>maze := m,
                       player := \<lparr>playerX = fst (start m), playerY = snd (start m),
                                   prevX = fst (start m), prevY = snd (start m)\<rparr>,
                       gameExploredCells := set_add (start m) [],
                       visitedCells := set_add (start m) [],
                       viewSystem := new_ViewSystem (viewMode (config g0)) 1\<rparr>"
  from r0 t obtain u where uv: "updateVisibility g1 = Returns u"
    and r1: "(case u of (g2, evs') \<Rightarrow>
                 Returns (g2\<lparr>state := \<lparr>isRunning = False, isPaused = False, isGameOver = False,
                                          isVictory = False, moves = 0, startTime = None,
                                          endTime = None\<rparr>\<rparr>, s1, evs')) = Returns (g, s', evs)"
    by (auto simp: bindR_Returns Let_def g1_def)
  obtain g2 evs' where u: "u = (g2, evs')" by (cases u)
  note sh = generate_shape[OF ge[unfolded t]]
  have st: "0 \<le> fst (start m)" "fst (start m) < mazeSize (config g0)"
    "0 \<le> snd (start m)" "snd (start m) < mazeSize (config g0)"
    using sh wh assms(2,3) unfolding draws_in_range_def by auto
  have "rows_ok m" using sh[THEN conjunct1] by (rule walls_rows_ok)
  then have k1: "game_ok g1"
    using sh wh st by (simp add: game_ok_def g1_def)
  from updateVisibility_returns[OF k1] uv u have k2: "game_ok g2" by auto
  have "g = g2\<lparr>state := \<lparr>isRunning = False, isPaused = False, isGameOver = False,
                                          isVictory = False, moves = 0, startTime = None,
                                          endTime = None\<rparr>\<rparr>"
    using r1 u by simp
  then show ?thesis using k2 by (simp add: game_ok_def)
qed

lemma new_ViewSystem_cache_ok: "cache_ok (new_ViewSystem md r) m"
  by (simp add: cache_ok_def new_ViewSystem_def)

lemma setMode_cache_ok: "cache_ok vs m \<Longrightarrow> cache_ok (setMode vs md) m"
  by (simp add: cache_ok_def setMode_def)

lemma setViewRange_cache_ok: "cache_ok (setViewRange vs r) m"
  by (simp add: cache_ok_def setViewRange_def Let_def)

lemma update_cache_ok:
  assumes "update vs vx vy m = Returns (visible, vs')" "cache_ok vs m"
  shows "cache_ok vs' m"
proof -
  from update_cases[OF assms(1)] obtain newVisible vs1 where
    c: "calculateVisibleArea vs vx vy m = Returns (newVisible, vs1)"
    and k: "cache vs' = cache vs1"
    by (cases "mode vs1 = ''permanent''") auto
  from calculateVisibleArea_result[OF c assms(2)] have "cache_ok vs1 m" by simp
  then show ?thesis using k by (simp add: cache_ok_def)
qed


section \<open>Evaluation on the \<open>3 \<times> 3\<close> maze\<close>

lemma rows_ok_maze_3x3: "rows_ok maze_3x3"
  by (simp add: rows_ok_def maze_3x3_def array_of_def)

lemma maze_3x3_generated:
  "map_option (\<lambda>(g, s'). (wall_lists g, start g, endc g, path g))
     (returned (generate scripted [0, 0, 2, 2, 0, 0, 0, 1, 1, 0, 0, 0] (blank_maze 3 3)))
   = Some (wall_lists maze_3x3, start maze_3x3, endc maze_3x3, path maze_3x3)"
  by code_simp

lemma vs_3x3_first_update:
  "map_option (\<lambda>(visible, vs). (visible, mode vs, viewRange vs, visibleCells vs, exploredCells vs,
                 permanentCells vs, cache vs (0, 0, 1)))
     (returned (update (new_ViewSystem ''permanent'' 1) 0 0 maze_3x3))
   = Some ([(0, 0), (1, 0), (1, 1)], mode (vs_3x3 ''permanent''), viewRange (vs_3x3 ''permanent''),
           visibleCells (vs_3x3 ''permanent''), exploredCells (vs_3x3 ''permanent''),
           permanentCells (vs_3x3 ''permanent''), cache (vs_3x3 ''permanent'') (0, 0, 1))"
  by code_simp

lemma vs_seen_second_update:
  "map_option (\<lambda>(visible, vs). (visible, mode vs, viewRange vs, visibleCells vs, exploredCells vs,
                 permanentCells vs, cache vs (0, 0, 1), cache vs (1, 0, 1)))
     (returned (update (vs_3x3 ''permanent'') 1 0 maze_3x3))
   = Some (visibleCells vs_seen, mode vs_seen, viewRange vs_seen,
           visibleCells vs_seen, exploredCells vs_seen,
           permanentCells vs_seen, cache vs_seen (0, 0, 1), cache vs_seen (1, 0, 1))"
  by code_simp

lemma game_3x3_initialised:
  "map_option (\<lambda>(g, s', evs). game_summary (fst (Game_start g 1000)))
     (returned (Game_init scripted [0, 0, 2, 2, 0, 0, 0, 1, 1, 0, 0, 0] (blank_game 3 ''instant'')))
   = Some (game_summary (game_3x3 ''instant''))"
  by code_simp

lemma game_3x3_permanent_initialised:
  "map_option (\<lambda>(g, s', evs). game_summary (fst (Game_start g 1000)))
     (returned (Game_init scripted [0, 0, 2, 2, 0, 0, 0, 1, 1, 0, 0, 0] (blank_game 3 ''permanent'')))
   = Some (game_summary (game_3x3 ''permanent''))"
  by code_simp

lemma scan_3x3_at_0_0:
  "scan_cells maze_3x3 0 0 (window 0 0 1) [] = Returns [(0, 0), (1, 0), (1, 1)]"
  by code_simp

lemma scan_3x3_at_1_0:
  "scan_cells maze_3x3 1 0 (window 1 0 1) [] = Returns [(0, 0), (1, 0), (2, 0), (0, 1), (2, 1)]"
  by code_simp


lemma cache_ok_vs_seen: "cache_ok vs_seen maze_3x3"
  using scan_3x3_at_0_0 scan_3x3_at_1_0 by (auto simp: cache_ok_def vs_seen_def split: if_splits)

lemma game_ok_game_3x3: "game_ok (game_3x3 md)"
  using rows_ok_maze_3x3 by (simp add: game_ok_def game_3x3_def maze_3x3_def)

lemma returned_Some: "returned r = Some v \<longleftrightarrow> r = Returns v"
  by (auto simp: returned_def split: option.splits sum.splits)

lemma move_right_3x3:
  "map_option fst (returned (movePlayer (game_3x3 ''instant'') 5000 1 0)) = Some True
   \<and> map_option (snd \<circ> snd) (returned (movePlayer (game_3x3 ''instant'') 5000 1 0)) =
       Some [OnCellExplored 2 0 4 9, OnCellExplored 0 1 5 9, OnCellExplored 2 1 6 9,
             OnMove (0, 0) (1, 0) 1]"
  by code_simp

lemma run_right_3x3:
  "map_option gameExploredCells (returned (run_ops (game_3x3 ''instant'') [MovePlayer 5000 1 0]))
     = Some [(0, 0), (1, 0), (1, 1), (2, 0), (0, 1), (2, 1)]
   \<and> map_option (exploredCells \<circ> viewSystem)
        (returned (run_ops (game_3x3 ''instant'') [MovePlayer 5000 1 0]))
     = Some [(0, 0), (1, 0), (2, 0), (0, 1), (2, 1)]"
  by code_simp


lemma update_permanent_3x3:
  "map_option fst (returned (update (vs_3x3 ''permanent'') 1 0 maze_3x3))
     = Some [(0, 0), (1, 0), (2, 0), (0, 1), (2, 1), (1, 1)]"
  by code_simp

lemma permanent_mode_keeps_history_3x3:
  "map_option (visibleCells \<circ> snd) (returned (update vs_seen 0 0 maze_3x3))
     = Some [(0, 0), (1, 0), (1, 1), (2, 0), (0, 1), (2, 1)]
   \<and> (2, 0) \<in> set [(0, 0), (1, 0), (1, 1), (2, 0), (0, 1), (2 :: int, 1 :: int)]
   \<and> \<not> max \<bar>2 - 0\<bar> \<bar>0 - 0\<bar> \<le> viewRange vs_seen"
  by code_simp

section \<open>The claims\<close>

subsection \<open>Moves along a diagonal\<close>

text \<open>
  C1. The claim: a call \<^verbatim>\<open>movePlayer(dx, dy)\<close> whose vector is not one of \<open>(0,-1)\<close>,
  \<open>(1,0)\<close>, \<open>(0,1)\<close>, \<open>(-1,0)\<close> returns failure and leaves the position, the previous
  position and the move count as they were. The code rejects the zero vector and a
  component beyond \<open>1\<close>, but not a diagonal: in the running game on the \<open>3 \<times> 3\<close> maze,
  with the player at \<open>(0, 0)\<close>, \<^verbatim>\<open>movePlayer(1, 1)\<close> is accepted. \<^verbatim>\<open>canMove\<close> looks at the wall
  to the right only, the player lands on \<open>(1, 1)\<close> although the walls below \<open>(0, 0)\<close>
  and above \<open>(1, 1)\<close> stand, and the move is counted.
\<close>

theorem movePlayer_accepts_diagonal:
  "map_option fst (returned (movePlayer (game_3x3 ''permanent'') 5000 1 1)) = Some True
   \<and> map_option (player \<circ> fst \<circ> snd) (returned (movePlayer (game_3x3 ''permanent'') 5000 1 1))
       = Some \<lparr>playerX = 1, playerY = 1, prevX = 0, prevY = 0\<rparr>
   \<and> map_option (moves \<circ> state \<circ> fst \<circ> snd)
        (returned (movePlayer (game_3x3 ''permanent'') 5000 1 1)) = Some 1
   \<and> canMove maze_3x3 0 0 0 1 = Inr False
   \<and> canMove maze_3x3 1 1 0 (- 1) = Inr False"
  by code_simp

theorem movePlayer_accepts_diagonal_witness:
  "isRunning (state (game_3x3 ''permanent'')) \<and> \<not> isPaused (state (game_3x3 ''permanent''))
   \<and> \<not> isGameOver (state (game_3x3 ''permanent''))
   \<and> \<not> ((1::int) = 0 \<and> (1::int) = 0) \<and> \<not> \<bar>1::int\<bar> > 1
   \<and> playerX (player (game_3x3 ''permanent'')) = 0 \<and> playerY (player (game_3x3 ''permanent'')) = 0
   \<and> map_option fst (returned (movePlayer (game_3x3 ''permanent'') 5000 1 1)) = Some True
   \<and> map_option (moves \<circ> state \<circ> fst \<circ> snd)
        (returned (movePlayer (game_3x3 ''permanent'') 5000 1 1)) = Some 1"
  using movePlayer_accepts_diagonal by (simp add: game_3x3_def)

subsection \<open>Out-of-range wall queries\<close>

text \<open>
  C2. The claim: an edge query outside the wall arrays makes \<^verbatim>\<open>canMove\<close> return false,
  with no fault. On the all-walls \<open>2 \<times> 2\<close> grid the code does neither: a column past the
  row's end reads \<^verbatim>\<open>undefined\<close>, which \<^verbatim>\<open>!\<close> turns into true (the move is allowed), and a
  row outside the array throws a TypeError. \<^verbatim>\<open>getWall\<close> answers the same two queries with
  "wall".
\<close>

theorem canMove_out_of_range_open_or_throws:
  "canMove maze_2x2 5 0 1 0 = Inr True
   \<and> canMove maze_2x2 0 5 1 0 = Inl TypeError
   \<and> getWall maze_2x2 Vertical 0 6 = Inr (Some True)
   \<and> getWall maze_2x2 Vertical 5 1 = Inr (Some True)"
  by code_simp

subsection \<open>The order of the events of a move\<close>

text \<open>
  C3, as claimed: in an accepted \<^verbatim>\<open>movePlayer\<close> call the move event comes before the
  explored-cell events of that move. It does not: \<^verbatim>\<open>movePlayer\<close> calls \<^verbatim>\<open>updateVisibility\<close>,
  which triggers the explored-cell events, before it triggers the move event. The first
  step to the right on the \<open>3 \<times> 3\<close> maze explores three cells and emits their events
  first.
\<close>

theorem move_event_after_explored_events:
  "map_option fst (returned (movePlayer (game_3x3 ''instant'') 5000 1 0)) = Some True
   \<and> map_option (snd \<circ> snd) (returned (movePlayer (game_3x3 ''instant'') 5000 1 0)) =
       Some [OnCellExplored 2 0 4 9, OnCellExplored 0 1 5 9, OnCellExplored 2 1 6 9,
             OnMove (0, 0) (1, 0) 1]"
  by (rule move_right_3x3)

text \<open>
  C3, amended: the events of an accepted \<^verbatim>\<open>movePlayer\<close> call are, in this order, the
  explored-cell events of the move, then the move event (from, to, move count), then at
  most one victory event.
\<close>

theorem movePlayer_event_order:
  assumes "movePlayer g now dx dy = Returns (True, g', evs)"
  shows "\<exists>explored_evs victory_evs.
           evs = explored_evs @ [move_event g dx dy] @ victory_evs
           \<and> list_all is_explored_event explored_evs
           \<and> list_all is_victory_event victory_evs \<and> length victory_evs \<le> 1"
proof -
  note a = movePlayer_True_not_rejected[OF assms]
  from assms obtain g2 evs1 where u: "updateVisibility (committed g dx dy) = Returns (g2, evs1)"
    and r: "(if (playerX (player g) + dx, playerY (player g) + dy) = endc (maze g) then
         Returns (True, fst (victory g2 now), evs1 @ [move_event g dx dy] @ snd (victory g2 now))
       else Returns (True, g2, evs1 @ [move_event g dx dy])) = Returns (True, g', evs)"
    unfolding movePlayer_accept_unfold[OF a[THEN conjunct1] a[THEN conjunct2]] bindR_Returns by auto
  have e: "list_all is_explored_event evs1" using updateVisibility_result[OF u] by simp
  show ?thesis
  proof (cases "(playerX (player g) + dx, playerY (player g) + dy) = endc (maze g)")
    case True
    then have "evs = evs1 @ [move_event g dx dy] @ snd (victory g2 now)" using r by simp
    moreover have "list_all is_victory_event (snd (victory g2 now)) \<and> length (snd (victory g2 now)) \<le> 1"
      by (simp add: victory_def Let_def is_victory_event_def)
    ultimately show ?thesis using e by blast
  next
    case False
    then have "evs = evs1 @ [move_event g dx dy] @ []" using r by simp
    then show ?thesis using e by (intro exI[of _ evs1] exI[of _ "[]"]) simp
  qed
qed

theorem movePlayer_event_order_witness:
  "\<exists>g' evs. movePlayer (game_3x3 ''instant'') 5000 1 0 = Returns (True, g', evs)
     \<and> (\<exists>explored_evs victory_evs.
           evs = explored_evs @ [OnMove (0, 0) (1, 0) 1] @ victory_evs
           \<and> list_all is_explored_event explored_evs
           \<and> list_all is_victory_event victory_evs \<and> length victory_evs \<le> 1)"
proof -
  obtain ok g' evs where m: "movePlayer (game_3x3 ''instant'') 5000 1 0 = Returns (ok, g', evs)"
    using move_right_3x3 by (cases "movePlayer (game_3x3 ''instant'') 5000 1 0")
      (auto simp: returned_def split: sum.splits)
  then have "ok" using move_right_3x3 by (simp add: returned_def)
  then have m': "movePlayer (game_3x3 ''instant'') 5000 1 0 = Returns (True, g', evs)"
    using m by simp
  have "move_event (game_3x3 ''instant'') 1 0 = OnMove (0, 0) (1, 0) 1"
    by (simp add: move_event_def game_3x3_def)
  then show ?thesis using movePlayer_event_order[OF m'] m' by auto
qed

subsection \<open>The instant mode forgets\<close>



subsection \<open>What is visible after an update\<close>

text \<open>
  C5. The claim: after any \<^verbatim>\<open>update\<close>, a visible cell is within \<^verbatim>\<open>viewRange\<close> of the viewer
  (Chebyshev distance) and in line of sight; in particular a cell behind an unbroken wall
  on the straight line between it and the viewer is never visible. The code sees through
  such a wall along a diagonal. At a diagonal step of its walk \<^verbatim>\<open>hasLineOfSight\<close> asks
  \<^verbatim>\<open>canMove(x, y, 1, 1)\<close>, which takes its \<^verbatim>\<open>dx === 1\<close> branch and looks at the wall to the
  right only. On the \<open>3 \<times> 3\<close> maze, in the instant mode, the first \<^verbatim>\<open>update\<close> at \<open>(0, 0)\<close>
  with view range \<open>1\<close> returns \<open>(1, 1)\<close> as visible, although the wall between row \<open>0\<close> and
  row \<open>1\<close> is unbroken under both \<open>(0, 0)\<close> and \<open>(1, 0)\<close>: no step down from either cell is
  allowed, in either direction, and \<^verbatim>\<open>getWall\<close> reports both wall segments.
\<close>

theorem update_sees_through_wall_on_diagonal:
  "map_option fst (returned (update (new_ViewSystem ''instant'' 1) 0 0 maze_3x3))
     = Some [(0, 0), (1, 0), (1, 1)]
   \<and> map_option (\<lambda>(visible, vs'). isCellVisible vs' 1 1)
        (returned (update (new_ViewSystem ''instant'' 1) 0 0 maze_3x3)) = Some True
   \<and> hasLineOfSight maze_3x3 0 0 1 1 = Returns True
   \<and> canMove maze_3x3 0 0 1 1 = Inr True
   \<and> canMove maze_3x3 0 0 0 1 = Inr False \<and> canMove maze_3x3 1 0 0 1 = Inr False
   \<and> canMove maze_3x3 0 1 0 (- 1) = Inr False \<and> canMove maze_3x3 1 1 0 (- 1) = Inr False
   \<and> getWall maze_3x3 Horizontal 1 0 = Inr (Some True)
   \<and> getWall maze_3x3 Horizontal 1 1 = Inr (Some True)"
  by code_simp

subsection \<open>Rejected moves\<close>

text \<open>
  C6. A \<^verbatim>\<open>movePlayer\<close> call that is rejected (the game is not running, is paused or is
  over; the vector is zero or has a component beyond \<open>1\<close>; the destination is outside
  the grid; a wall blocks the step) returns false, leaves the whole game as it was and
  triggers no event.
\<close>

theorem movePlayer_rejected_unchanged:
  assumes "rejected g dx dy"
  shows "movePlayer g now dx dy = Returns (False, g, [])"
  using assms by (rule movePlayer_rejected)

theorem movePlayer_rejected_unchanged_witness:
  "rejected (game_3x3 ''instant'') 0 1
   \<and> canMove maze_3x3 0 0 0 1 = Inr False
   \<and> movePlayer (game_3x3 ''instant'') 5000 0 1 = Returns (False, game_3x3 ''instant'', [])"
proof -
  have c: "canMove maze_3x3 0 0 0 1 = Inr False" by code_simp
  then have r: "rejected (game_3x3 ''instant'') 0 1" by (simp add: rejected_def game_3x3_def)
  show ?thesis using r c movePlayer_rejected_unchanged[OF r, of 5000] by simp
qed

subsection \<open>The solution path of a generated maze\<close>

text \<open>
  C7. Take a maze in which some path of \<^verbatim>\<open>canMove\<close> steps inside the grid leads from the start
  to the end. If its wall rows are allocated, \<^verbatim>\<open>calculatePath\<close> returns: it changes nothing
  but the solution path, and the path it sets begins at the start, ends at the end, is
  made of valid \<^verbatim>\<open>canMove\<close> steps between cells of the grid, and is no longer than the
  given path, so it is a shortest one. And if the maze is one that \<^verbatim>\<open>generate\<close> returned
  (whatever the source of randomness), its wall rows are allocated and its solution path
  is the one \<^verbatim>\<open>calculatePath\<close> computes on it, with these four properties.
\<close>

theorem generate_solution_path_shortest:
  assumes "is_path m p" "hd p = start m" "last p = endc m"
  shows "(rows_ok m \<longrightarrow>
            (\<exists>sp. calculatePath m = Returns (m\<lparr>path := sp\<rparr>)
               \<and> is_path m sp \<and> hd sp = start m \<and> last sp = endc m
               \<and> length sp \<le> length p))
         \<and> (\<forall>(rnd :: 's random_source) s m0 s'. generate rnd s m0 = Returns (m, s') \<longrightarrow>
               rows_ok m \<and> calculatePath m = Returns m
               \<and> is_path m (path m) \<and> hd (path m) = start m \<and> last (path m) = endc m
               \<and> length (path m) \<le> length p)"
proof -
  have total: "\<exists>sp. calculatePath m = Returns (m\<lparr>path := sp\<rparr>)
               \<and> is_path m sp \<and> hd sp = start m \<and> last sp = endc m
               \<and> length sp \<le> length p" if "rows_ok m"
    using calculatePath_shortest[OF that assms] .
  have gen: "rows_ok m \<and> calculatePath m = Returns m
             \<and> is_path m (path m) \<and> hd (path m) = start m \<and> last (path m) = endc m
             \<and> length (path m) \<le> length p"
    if g: "generate rnd s m0 = Returns (m, s')"
    for rnd :: "'s random_source" and s m0 s'
  proof -
    from generate_result[OF g] obtain m2 where
      c: "calculatePath m2 = Returns m" and w: "walls_rows (height m2) (walls m2)" by blast
    from calculatePath_only_path[OF c] obtain sp0 where m: "m = m2\<lparr>path := sp0\<rparr>" by blast
    have r: "rows_ok m" using walls_rows_ok[OF w] m by (simp add: rows_ok_def)
    have same: "calculatePath m = Returns m" using c m calculatePath_frame[where m = m2 and p = sp0] by simp
    from total[OF r] obtain sp where
      sp: "calculatePath m = Returns (m\<lparr>path := sp\<rparr>)" "is_path m sp" "hd sp = start m"
        "last sp = endc m" "length sp \<le> length p" by blast
    have "m\<lparr>path := sp\<rparr> = m" using sp(1) same by simp
    then have "path (m\<lparr>path := sp\<rparr>) = path m" by simp
    then have "path m = sp" by simp
    then show ?thesis using r same sp by simp
  qed
  show ?thesis using total gen by blast
qed

theorem generate_solution_path_shortest_witness:
  "\<exists>g s'. generate scripted [0, 0, 2, 2, 0, 0, 0, 1, 1, 0, 0, 0] (blank_maze 3 3) = Returns (g, s')
     \<and> start g = (0, 0) \<and> endc g = (2, 2)
     \<and> is_path g [(0, 0), (1, 0), (0, 0), (1, 0), (2, 0), (2, 1), (1, 1), (0, 1), (0, 2), (1, 2), (2, 2)]
     \<and> rows_ok g \<and> calculatePath g = Returns g
     \<and> path g = [(0, 0), (1, 0), (2, 0), (2, 1), (1, 1), (0, 1), (0, 2), (1, 2), (2, 2)]
     \<and> is_path g (path g) \<and> hd (path g) = start g \<and> last (path g) = endc g
     \<and> length (path g) \<le> 11"
proof -
  define p :: "cell list" where
    "p = [(0, 0), (1, 0), (0, 0), (1, 0), (2, 0), (2, 1), (1, 1), (0, 1), (0, 2), (1, 2), (2, 2)]"
  have e: "map_option (\<lambda>(g, s'). (start g, endc g, path g,
               is_path g [(0, 0), (1, 0), (0, 0), (1, 0), (2, 0), (2, 1), (1, 1), (0, 1), (0, 2),
                          (1, 2), (2, 2)]))
             (returned (generate scripted [0, 0, 2, 2, 0, 0, 0, 1, 1, 0, 0, 0] (blank_maze 3 3)))
           = Some ((0, 0), (2, 2),
                   [(0, 0), (1, 0), (2, 0), (2, 1), (1, 1), (0, 1), (0, 2), (1, 2), (2, 2)], True)"
    by code_simp
  then obtain g s' where
    g: "generate scripted [0, 0, 2, 2, 0, 0, 0, 1, 1, 0, 0, 0] (blank_maze 3 3) = Returns (g, s')"
    by (cases "generate scripted [0, 0, 2, 2, 0, 0, 0, 1, 1, 0, 0, 0] (blank_maze 3 3)")
       (auto simp: returned_def split: sum.splits)
  then have f: "start g = (0, 0)" "endc g = (2, 2)"
    "path g = [(0, 0), (1, 0), (2, 0), (2, 1), (1, 1), (0, 1), (0, 2), (1, 2), (2, 2)]"
    "is_path g p"
    using e by (simp_all add: returned_def p_def)
  have h: "hd p = start g" "last p = endc g" and l: "length p = 11" using f by (simp_all add: p_def)
  from generate_solution_path_shortest[OF f(4) h] g l
  have "rows_ok g \<and> calculatePath g = Returns g
        \<and> is_path g (path g) \<and> hd (path g) = start g \<and> last (path g) = endc g
        \<and> length (path g) \<le> 11"
    by metis
  then show ?thesis using g f unfolding p_def by blast
qed

subsection \<open>Seeded generation\<close>

text \<open>
  C8. Two runs of \<^verbatim>\<open>generateFixedLevel\<close> with the same level (the seed is \<open>level * 12345\<close>)
  on two mazes of the same width and height have the same outcome, whatever the mazes
  held before and however the floating-point operations round: the same wall arrays,
  start, end and solution path when one returns, and otherwise the same exception or no
  return for both.
\<close>

theorem generateFixedLevel_deterministic:
  assumes "width m1 = width m2" "height m1 = height m2"
  shows "generateFixedLevel to_double floor_scaled level m1
         = generateFixedLevel to_double floor_scaled level m2"
  unfolding generateFixedLevel_def generate_frame[OF assms] ..

theorem generateFixedLevel_deterministic_witness:
  "width maze_3x3 = width (blank_maze 3 3) \<and> height maze_3x3 = height (blank_maze 3 3)
   \<and> generateFixedLevel exact_double exact_floor_scaled 1 maze_3x3
       = generateFixedLevel exact_double exact_floor_scaled 1 (blank_maze 3 3)
   \<and> map_option start (returned (generateFixedLevel exact_double exact_floor_scaled 1 maze_3x3))
       = Some (1, 0)
   \<and> map_option endc (returned (generateFixedLevel exact_double exact_floor_scaled 1 maze_3x3))
       = Some (0, 0)
   \<and> map_option path (returned (generateFixedLevel exact_double exact_floor_scaled 1 maze_3x3))
       = Some [(1, 0), (0, 0)]"
proof -
  have w: "width maze_3x3 = width (blank_maze 3 3)" "height maze_3x3 = height (blank_maze 3 3)"
    by (simp_all add: maze_3x3_def blank_maze_def)
  have e: "map_option start
             (returned (generateFixedLevel exact_double exact_floor_scaled 1 (blank_maze 3 3)))
           = Some (1, 0)
     \<and> map_option endc
         (returned (generateFixedLevel exact_double exact_floor_scaled 1 (blank_maze 3 3)))
           = Some (0, 0)
     \<and> map_option path
         (returned (generateFixedLevel exact_double exact_floor_scaled 1 (blank_maze 3 3)))
           = Some [(1, 0), (0, 0)]"
    by code_simp
  show ?thesis
    using w e generateFixedLevel_deterministic[OF w, of exact_double exact_floor_scaled 1] by simp
qed

subsection \<open>The game's own explored set\<close>

text \<open>
  C9. Across any sequence of \<^verbatim>\<open>movePlayer\<close>, \<^verbatim>\<open>setViewMode\<close> and \<^verbatim>\<open>updateVisibility\<close> calls on
  one game, a cell for which \<^verbatim>\<open>Game.isCellExplored\<close> is true stays so, in either mode of the
  visibility system; and on a game as \<^verbatim>\<open>init\<close> builds it every such sequence runs to its
  end.
\<close>

theorem game_explored_monotone:
  assumes "Game_isCellExplored g x y"
  shows "(\<forall>g'. run_ops g ops = Returns g' \<longrightarrow> Game_isCellExplored g' x y)
         \<and> (game_ok g \<longrightarrow> (\<exists>g'. run_ops g ops = Returns g'))"
  using assms run_ops_explored_mono[of g ops] run_ops_returns[of g ops]
  by (auto simp: Game_isCellExplored_def)

theorem game_explored_monotone_witness:
  "Game_isCellExplored (game_3x3 ''instant'') 1 1 \<and> game_ok (game_3x3 ''instant'')
   \<and> (\<exists>g'. run_ops (game_3x3 ''instant'') [MovePlayer 5000 1 0] = Returns g'
          \<and> Game_isCellExplored g' 1 1
          \<and> \<not> isCellExplored (viewSystem g') 1 1)"
proof -
  have e: "Game_isCellExplored (game_3x3 ''instant'') 1 1"
    by (simp add: Game_isCellExplored_def game_3x3_def)
  note t = game_explored_monotone[OF e, of "[MovePlayer 5000 1 0]"]
  then obtain g' where r: "run_ops (game_3x3 ''instant'') [MovePlayer 5000 1 0] = Returns g'"
    using game_ok_game_3x3 by blast
  then have "Game_isCellExplored g' 1 1" using t by blast
  moreover have "\<not> isCellExplored (viewSystem g') 1 1"
    using run_right_3x3 r by (simp add: returned_def isCellExplored_def)
  ultimately show ?thesis using e game_ok_game_3x3 r by blast
qed

subsection \<open>The viewer sees its own cell\<close>




end
